theory Spec2Isabelle
  imports Complex_Main "HOL-Library.AList" "HOL-Library.Multiset" "HOL-Library.Log_Nat"
begin

section \<open>Data model\<close>

text \<open>
  The row type of the table (\<^verbatim>\<open>interface RowItem\<close>). The fields \<^verbatim>\<open>sort\<close> and
  \<^verbatim>\<open>count\<close> carry a prime, because the plain names are constants of the HOL library.
  The order key \<^verbatim>\<open>sort\<close> is a JavaScript number, an IEEE-754 double. Every finite double
  is a rational number, so the field holds a rational. The arithmetic on the keys is given
  twice below: \<open>computeNewSorts\<close> computes exactly, and \<open>computeNewSortsR\<close> rounds the result
  of every operation, with \<open>roundDouble\<close> as the rounding of doubles. What is proved of
  \<open>computeNewSorts\<close> is a property of the code in exact arithmetic only.
  The optional \<^verbatim>\<open>groupSize\<close> is an option.
\<close>

record RowItem =
  key :: string
  groupKey :: string
  groupSize :: "nat option"
  category :: string
  name :: string
  count' :: int
  sort' :: rat

text \<open>The two Chinese characters of the product names of the seed data, as UTF-8 bytes.\<close>

definition product :: string where
  "product = [CHR 0xE4, CHR 0xBA, CHR 0xA7, CHR 0xE5, CHR 0x93, CHR 0x81]"

definition initialData :: "RowItem list" where
  "initialData =
    [\<lparr>key = ''1-1'', groupKey = ''group-A'', groupSize = Some 3, category = ''A'',
       name = product @ '' A1'', count' = 10, sort' = 1\<rparr>,
     \<lparr>key = ''1-2'', groupKey = ''group-A'', groupSize = None, category = ''A'',
       name = product @ '' A2'', count' = 20, sort' = 2\<rparr>,
     \<lparr>key = ''1-3'', groupKey = ''group-A'', groupSize = None, category = ''A'',
       name = product @ '' A3'', count' = 30, sort' = 3\<rparr>,
     \<lparr>key = ''2-1'', groupKey = ''group-B'', groupSize = Some 2, category = ''B'',
       name = product @ '' B1'', count' = 5, sort' = 4\<rparr>,
     \<lparr>key = ''2-2'', groupKey = ''group-B'', groupSize = None, category = ''B'',
       name = product @ '' B2'', count' = 15, sort' = 5\<rparr>,
     \<lparr>key = ''3-1'', groupKey = ''group-C'', groupSize = Some 1, category = ''C'',
       name = product @ '' C1'', count' = 40, sort' = 6\<rparr>]"

section \<open>Helpers\<close>

text \<open>
  \<^verbatim>\<open>Array.prototype.sort\<close> with the comparator \<^verbatim>\<open>a.sort - b.sort\<close> is a stable
  ascending sort by the order key: \<^const>\<open>sort_key\<close>, which is stable as well.
\<close>

definition sortBySort :: "RowItem list \<Rightarrow> RowItem list" where
  "sortBySort rows = sort_key sort' rows"

text \<open>
  \<^verbatim>\<open>buildGroups\<close> fills a \<^verbatim>\<open>Map\<close>, which iterates in insertion order: an association
  list, where \<^const>\<open>AList.update\<close> replaces the value of a present key in place and appends
  an absent key at the end. \<open>groupPush\<close> is the body of the \<^verbatim>\<open>forEach\<close>. A group is
  the pair of its \<^verbatim>\<open>groupKey\<close> and its \<^verbatim>\<open>rows\<close>.
\<close>

definition groupPush :: "(string \<times> RowItem list) list \<Rightarrow> RowItem \<Rightarrow> (string \<times> RowItem list) list" where
  "groupPush m r =
     (let m1 = (if map_of m (groupKey r) = None then AList.update (groupKey r) [] m else m)
      in case map_of m1 (groupKey r) of
           None \<Rightarrow> m1
         | Some rows \<Rightarrow> AList.update (groupKey r) (rows @ [r]) m1)"

definition buildGroups :: "RowItem list \<Rightarrow> (string \<times> RowItem list) list" where
  "buildGroups data = map (\<lambda>(gk, rows). (gk, sortBySort rows)) (foldl groupPush [] data)"

definition flattenAndResort :: "(string \<times> RowItem list) list \<Rightarrow> RowItem list" where
  "flattenAndResort groups = concat (map snd groups)"

definition findPrevSort :: "RowItem list \<Rightarrow> rat \<Rightarrow> rat option" where
  "findPrevSort data s =
     (let arr = sortBySort (filter (\<lambda>i. sort' i < s) data)
      in if length arr = 0 then None else Some (sort' (last arr)))"

definition findNextSort :: "RowItem list \<Rightarrow> rat \<Rightarrow> rat option" where
  "findNextSort data s =
     (let arr = sortBySort (filter (\<lambda>i. sort' i > s) data)
      in if length arr = 0 then None else Some (sort' (hd arr)))"

definition updateRowSort :: "RowItem list \<Rightarrow> string \<Rightarrow> rat \<Rightarrow> RowItem list" where
  "updateRowSort data rowKey newSort =
     map (\<lambda>r. if key r = rowKey then r\<lparr>sort' := newSort\<rparr> else r) data"

text \<open>
  \<^verbatim>\<open>updateGroupSort\<close> maps over the array with a counter \<^verbatim>\<open>idx\<close> that starts at 1 and
  is incremented at each row of the group: the counter is an argument of the recursion.
\<close>

fun updateGroupSortFrom :: "nat \<Rightarrow> RowItem list \<Rightarrow> string \<Rightarrow> rat \<Rightarrow> rat \<Rightarrow> RowItem list" where
  "updateGroupSortFrom idx [] gk up JQ = []"
| "updateGroupSortFrom idx (r # rs) gk up JQ =
     (if groupKey r = gk
      then r\<lparr>sort' := up + JQ * of_nat idx\<rparr> # updateGroupSortFrom (idx + 1) rs gk up JQ
      else r # updateGroupSortFrom idx rs gk up JQ)"

definition updateGroupSort :: "RowItem list \<Rightarrow> string \<Rightarrow> rat \<Rightarrow> rat \<Rightarrow> RowItem list" where
  "updateGroupSort data gk up JQ = updateGroupSortFrom 1 data gk up JQ"

section \<open>Sort calculation\<close>

text \<open>
  The identifiers are strings with the prefix \<^verbatim>\<open>row:\<close> or \<^verbatim>\<open>group:\<close>.
  \<open>startsWith\<close> is \<^verbatim>\<open>String.prototype.startsWith\<close>, and \<^verbatim>\<open>id.slice(n)\<close> is
  \<^const>\<open>drop\<close>.
\<close>

definition startsWith :: "string \<Rightarrow> string \<Rightarrow> bool" where
  "startsWith s p = (take (length p) s = p)"

text \<open>
  The closures \<^verbatim>\<open>getSortForId\<close>, \<^verbatim>\<open>findPrev\<close> and \<^verbatim>\<open>findNext\<close> of
  \<^verbatim>\<open>computeNewSorts\<close>, with the captured \<^verbatim>\<open>sortedData\<close> as their first argument.
  \<^verbatim>\<open>null\<close> is \<^const>\<open>None\<close>.
\<close>

definition getSortForId :: "RowItem list \<Rightarrow> string \<Rightarrow> bool \<Rightarrow> rat option" where
  "getSortForId sortedData ident isTargetingEnd =
     (if startsWith ident ''row:'' then
        (let k = drop (length ''row:'') ident
         in case find (\<lambda>x. key x = k) sortedData of
              None \<Rightarrow> None
            | Some r \<Rightarrow> Some (sort' r))
      else if startsWith ident ''group:'' then
        (let gk = drop (length ''group:'') ident;
             rows = sortBySort (filter (\<lambda>x. groupKey x = gk) sortedData)
         in if length rows = 0 then None
            else if isTargetingEnd then Some (sort' (last rows))
            else Some (sort' (hd rows)))
      else None)"

definition findPrev :: "RowItem list \<Rightarrow> rat option \<Rightarrow> rat option" where
  "findPrev sortedData s = (case s of None \<Rightarrow> None | Some v \<Rightarrow> findPrevSort sortedData v)"

definition findNext :: "RowItem list \<Rightarrow> rat option \<Rightarrow> rat option" where
  "findNext sortedData s = (case s of None \<Rightarrow> None | Some v \<Rightarrow> findNextSort sortedData v)"

text \<open>
  A \<^verbatim>\<open>null\<close> operand of JavaScript arithmetic is converted to the number 0. (After the
  guard of \<^verbatim>\<open>computeNewSorts\<close> the value \<^verbatim>\<open>overSort\<close> is never \<^verbatim>\<open>null\<close>, see
  \<open>getSortForId_end_resolves\<close>.)
\<close>

definition toNumber :: "rat option \<Rightarrow> rat" where
  "toNumber v = (case v of None \<Rightarrow> 0 | Some x \<Rightarrow> x)"

text \<open>
  \<^verbatim>\<open>a ?? b\<close>: the left operand unless it is \<^verbatim>\<open>null\<close>.
\<close>

definition orElse :: "rat option \<Rightarrow> rat \<Rightarrow> rat" where
  "orElse v d = (case v of None \<Rightarrow> d | Some x \<Rightarrow> x)"

text \<open>
  \<^verbatim>\<open>computeNewSorts\<close>. The copy \<^verbatim>\<open>sortedData.map((r) => ({ ...r }))\<close> has the fields
  of its original, so \<^verbatim>\<open>newData\<close> starts as \<open>sortedData\<close>.
\<close>

definition computeNewSorts :: "RowItem list \<Rightarrow> string \<Rightarrow> string \<Rightarrow> RowItem list" where
  "computeNewSorts sortedData activeId overId =
     (let activeIsGroup = startsWith activeId ''group:'';
          activeIsRow = startsWith activeId ''row:'';
          activeSort = getSortForId sortedData activeId False;
          overSortBase = getSortForId sortedData overId False
      in if activeSort = None \<or> overSortBase = None then sortedData
         else
          (let isUp = toNumber activeSort > toNumber overSortBase;
               isDown = toNumber activeSort < toNumber overSortBase;
               overSort = getSortForId sortedData overId isDown;
               newData = sortedData
           in if activeIsRow \<and> \<not> activeIsGroup then
                (let activeKey = drop (length ''row:'') activeId
                 in if isUp then
                      (let down = toNumber overSort;
                           up = orElse (findPrev sortedData overSort) 0;
                           newSort = (down - up) / 2 + up
                       in updateRowSort newData activeKey newSort)
                    else if isDown then
                      (let up = toNumber overSort;
                           maybeNext = findNext sortedData overSort;
                           down = orElse maybeNext (up + 2);
                           newSort = up + (down - up) / 2
                       in updateRowSort newData activeKey newSort)
                    else newData)
              else if activeIsGroup then
                (let gk = drop (length ''group:'') activeId;
                     rows = sortBySort (filter (\<lambda>r. groupKey r = gk) sortedData);
                     rowNum = length rows
                 in if isUp then
                      (let down = toNumber overSort;
                           up = orElse (findPrev sortedData overSort) 0;
                           JQ = (down - up) / (of_nat rowNum + 1)
                       in updateGroupSort newData gk up JQ)
                    else if isDown then
                      (let up = toNumber overSort;
                           maybeNext = findNext sortedData overSort;
                           down = orElse maybeNext (up + of_nat rowNum + 1);
                           JQ = (down - up) / (of_nat rowNum + 1)
                       in updateGroupSort newData gk up JQ)
                    else newData)
              else newData))"

section \<open>Sort calculation in double arithmetic\<close>

text \<open>
  An operation on doubles returns the exact result rounded to the nearest double, a tie
  going to the double with the even significand. For a positive \<open>x\<close>, \<open>binaryExponent x\<close>
  is the exponent \<open>e\<close> of its binade, \<open>pow2 e \<le> x < pow2 (e + 1)\<close>; the doubles of that
  binade are the multiples of \<open>pow2 (e - 52)\<close>, and below \<open>pow2 (- 1022)\<close>, among the
  subnormal numbers, the multiples of \<open>pow2 (- 1074)\<close>. Results of magnitude \<open>pow2 1024\<close>
  and more, which JavaScript turns into \<^verbatim>\<open>Infinity\<close>, are outside this model, and so is
  \<^verbatim>\<open>NaN\<close>.
\<close>

definition pow2 :: "int \<Rightarrow> rat" where
  "pow2 e = (if 0 \<le> e then 2 ^ nat e else 1 / 2 ^ nat (- e))"

definition binaryExponent :: "rat \<Rightarrow> int" where
  "binaryExponent x = (if 1 \<le> x then bitlen \<lfloor>x\<rfloor> - 1 else - bitlen (\<lceil>1 / x\<rceil> - 1))"

definition roundHalfEven :: "rat \<Rightarrow> int" where
  "roundHalfEven q =
     (let n = \<lfloor>q\<rfloor>; f = q - of_int n
      in if f < 1 / 2 then n else if 1 / 2 < f then n + 1 else if even n then n else n + 1)"

definition roundDouble :: "rat \<Rightarrow> rat" where
  "roundDouble x =
     (if x = 0 then 0
      else (let ulp = pow2 (max (binaryExponent \<bar>x\<bar>) (- 1022) - 52)
            in of_int (roundHalfEven (x / ulp)) * ulp))"

text \<open>
  \<^verbatim>\<open>updateGroupSort\<close> and \<^verbatim>\<open>computeNewSorts\<close> once more, with the rounding \<open>rnd\<close> applied
  to the result of every addition, subtraction, multiplication and division of the source.
  Everything else is as in \<open>updateGroupSortFrom\<close> and \<open>computeNewSorts\<close>; with the identity
  as rounding they are these functions (\<open>computeNewSortsR_exact\<close>).
\<close>

fun updateGroupSortFromR ::
  "(rat \<Rightarrow> rat) \<Rightarrow> nat \<Rightarrow> RowItem list \<Rightarrow> string \<Rightarrow> rat \<Rightarrow> rat \<Rightarrow> RowItem list" where
  "updateGroupSortFromR rnd idx [] gk up JQ = []"
| "updateGroupSortFromR rnd idx (r # rs) gk up JQ =
     (if groupKey r = gk
      then r\<lparr>sort' := rnd (up + rnd (JQ * of_nat idx))\<rparr>
             # updateGroupSortFromR rnd (idx + 1) rs gk up JQ
      else r # updateGroupSortFromR rnd idx rs gk up JQ)"

definition updateGroupSortR ::
  "(rat \<Rightarrow> rat) \<Rightarrow> RowItem list \<Rightarrow> string \<Rightarrow> rat \<Rightarrow> rat \<Rightarrow> RowItem list" where
  "updateGroupSortR rnd data gk up JQ = updateGroupSortFromR rnd 1 data gk up JQ"

definition computeNewSortsR ::
  "(rat \<Rightarrow> rat) \<Rightarrow> RowItem list \<Rightarrow> string \<Rightarrow> string \<Rightarrow> RowItem list" where
  "computeNewSortsR rnd sortedData activeId overId =
     (let activeIsGroup = startsWith activeId ''group:'';
          activeIsRow = startsWith activeId ''row:'';
          activeSort = getSortForId sortedData activeId False;
          overSortBase = getSortForId sortedData overId False
      in if activeSort = None \<or> overSortBase = None then sortedData
         else
          (let isUp = toNumber activeSort > toNumber overSortBase;
               isDown = toNumber activeSort < toNumber overSortBase;
               overSort = getSortForId sortedData overId isDown;
               newData = sortedData
           in if activeIsRow \<and> \<not> activeIsGroup then
                (let activeKey = drop (length ''row:'') activeId
                 in if isUp then
                      (let down = toNumber overSort;
                           up = orElse (findPrev sortedData overSort) 0;
                           newSort = rnd (rnd (rnd (down - up) / 2) + up)
                       in updateRowSort newData activeKey newSort)
                    else if isDown then
                      (let up = toNumber overSort;
                           maybeNext = findNext sortedData overSort;
                           down = orElse maybeNext (rnd (up + 2));
                           newSort = rnd (up + rnd (rnd (down - up) / 2))
                       in updateRowSort newData activeKey newSort)
                    else newData)
              else if activeIsGroup then
                (let gk = drop (length ''group:'') activeId;
                     rows = sortBySort (filter (\<lambda>r. groupKey r = gk) sortedData);
                     rowNum = length rows
                 in if isUp then
                      (let down = toNumber overSort;
                           up = orElse (findPrev sortedData overSort) 0;
                           JQ = rnd (rnd (down - up) / rnd (of_nat rowNum + 1))
                       in updateGroupSortR rnd newData gk up JQ)
                    else if isDown then
                      (let up = toNumber overSort;
                           maybeNext = findNext sortedData overSort;
                           down = orElse maybeNext (rnd (rnd (up + of_nat rowNum) + 1));
                           JQ = rnd (rnd (down - up) / rnd (of_nat rowNum + 1))
                       in updateGroupSortR rnd newData gk up JQ)
                    else newData)
              else newData))"

section \<open>Group sizes\<close>

text \<open>
  \<^verbatim>\<open>recomputeGroupSizes\<close>: \<^verbatim>\<open>flatMap\<close> over the groups, and in each group a
  \<^verbatim>\<open>map\<close> with the index of the row.
\<close>

definition recomputeGroupSizes :: "RowItem list \<Rightarrow> RowItem list" where
  "recomputeGroupSizes data =
     (let groups = buildGroups data
      in concat (map (\<lambda>(gk, rows).
           (let size = length rows
            in map (\<lambda>(idx, r). r\<lparr>groupSize := Some (if idx = 0 then size else 0)\<rparr>)
                 (enumerate 0 rows))) groups))"

section \<open>Notions of the properties\<close>

text \<open>
  The rows that a move with the active identifier \<open>activeId\<close> is about: the row of that
  identifier, or the members of that group.
\<close>

definition involved :: "string \<Rightarrow> RowItem \<Rightarrow> bool" where
  "involved activeId r =
     ((startsWith activeId ''row:'' \<and> key r = drop (length ''row:'') activeId)
      \<or> (startsWith activeId ''group:'' \<and> groupKey r = drop (length ''group:'') activeId))"

text \<open>
  An identifier resolves when it names a row of the collection, or a group with a member.
\<close>

definition resolves :: "RowItem list \<Rightarrow> string \<Rightarrow> bool" where
  "resolves data ident =
     (if startsWith ident ''row:'' then (\<exists>r\<in>set data. key r = drop (length ''row:'') ident)
      else startsWith ident ''group:'' \<and> (\<exists>r\<in>set data. groupKey r = drop (length ''group:'') ident))"

text \<open>
  Every key of group \<open>g\<close> is below every key of group \<open>h\<close>; and the groups of a
  collection are not interleaved when of any two of them one is below the other.
\<close>

definition groupBelow :: "RowItem list \<Rightarrow> string \<Rightarrow> string \<Rightarrow> bool" where
  "groupBelow data g h =
     (\<forall>a\<in>set data. \<forall>b\<in>set data. groupKey a = g \<and> groupKey b = h \<longrightarrow> sort' a < sort' b)"

definition nonInterleaved :: "RowItem list \<Rightarrow> bool" where
  "nonInterleaved data =
     (\<forall>a\<in>set data. \<forall>b\<in>set data. groupKey a \<noteq> groupKey b \<longrightarrow>
        groupBelow data (groupKey a) (groupKey b) \<or> groupBelow data (groupKey b) (groupKey a))"

text \<open>
  The identifiers of the members of group \<open>gk\<close>, listed by ascending order key.
\<close>

definition membersAscending :: "RowItem list \<Rightarrow> string \<Rightarrow> string list" where
  "membersAscending data gk = map key (sortBySort (filter (\<lambda>r. groupKey r = gk) data))"

text \<open>
  A collection of three rows that is not sorted by order key: group \<open>g\<close> with the keys 2 and
  1, in this order, and group \<open>h\<close> with the key 3.
\<close>

definition unsortedData :: "RowItem list" where
  "unsortedData =
    [\<lparr>key = ''b'', groupKey = ''g'', groupSize = None, category = ''G'',
       name = ''b'', count' = 0, sort' = 2\<rparr>,
     \<lparr>key = ''a'', groupKey = ''g'', groupSize = Some 2, category = ''G'',
       name = ''a'', count' = 0, sort' = 1\<rparr>,
     \<lparr>key = ''c'', groupKey = ''h'', groupSize = Some 1, category = ''H'',
       name = ''c'', count' = 0, sort' = 3\<rparr>]"

text \<open>
  Two collections, sorted by order key, in which two neighbouring keys are neighbouring
  doubles, 1 and \<open>1 + 2\<^sup>-\<^sup>5\<^sup>2\<close>: three rows of one group, and the groups \<open>Z\<close>, \<open>A\<close> and
  \<open>B\<close>.
\<close>

definition closeKeysData :: "RowItem list" where
  "closeKeysData =
    [\<lparr>key = ''r'', groupKey = ''g'', groupSize = Some 3, category = ''G'',
       name = ''r'', count' = 0, sort' = 1 / 2\<rparr>,
     \<lparr>key = ''t'', groupKey = ''g'', groupSize = Some 0, category = ''G'',
       name = ''t'', count' = 0, sort' = 1\<rparr>,
     \<lparr>key = ''s'', groupKey = ''g'', groupSize = Some 0, category = ''G'',
       name = ''s'', count' = 0, sort' = 1 + 1 / 2 ^ 52\<rparr>]"

definition closeGroupsData :: "RowItem list" where
  "closeGroupsData =
    [\<lparr>key = ''z'', groupKey = ''Z'', groupSize = Some 1, category = ''Z'',
       name = ''z'', count' = 0, sort' = 1\<rparr>,
     \<lparr>key = ''a'', groupKey = ''A'', groupSize = Some 1, category = ''A'',
       name = ''a'', count' = 0, sort' = 1 + 1 / 2 ^ 52\<rparr>,
     \<lparr>key = ''b1'', groupKey = ''B'', groupSize = Some 2, category = ''B'',
       name = ''b1'', count' = 0, sort' = 2\<rparr>,
     \<lparr>key = ''b2'', groupKey = ''B'', groupSize = Some 0, category = ''B'',
       name = ''b2'', count' = 0, sort' = 3\<rparr>]"

text \<open>
  The number of members of group \<open>g\<close>; the rows that carry the smallest order key of their
  group; and a row with the \<open>groupSize\<close> it is to carry: the number of members of its
  group when it has the smallest key of the group, and 0 otherwise.
\<close>

definition groupCard :: "RowItem list \<Rightarrow> string \<Rightarrow> nat" where
  "groupCard data g = length (filter (\<lambda>x. groupKey x = g) data)"

definition isHeader :: "RowItem list \<Rightarrow> RowItem \<Rightarrow> bool" where
  "isHeader data r = (\<forall>x\<in>set data. groupKey x = groupKey r \<longrightarrow> sort' r \<le> sort' x)"

definition withGroupSize :: "RowItem list \<Rightarrow> RowItem \<Rightarrow> RowItem" where
  "withGroupSize data r =
     r\<lparr>groupSize := Some (if isHeader data r then groupCard data (groupKey r) else 0)\<rparr>"

section \<open>What the updates leave alone\<close>



lemma startsWith_row_not_group: "startsWith a ''row:'' \<Longrightarrow> \<not> startsWith a ''group:''"
  by (cases a) (auto simp: startsWith_def)

lemma length_updateRowSort [simp]: "length (updateRowSort d k v) = length d"
  by (simp add: updateRowSort_def)

lemma length_updateGroupSortFrom [simp]: "length (updateGroupSortFrom idx d gk up JQ) = length d"
  by (induction d arbitrary: idx) auto

lemma updateRowSort_frame:
  "map (\<lambda>r. r\<lparr>sort' := 0\<rparr>) (updateRowSort d k v) = map (\<lambda>r. r\<lparr>sort' := 0\<rparr>) d"
  by (induction d) (auto simp: updateRowSort_def)

lemma updateGroupSortFrom_frame:
  "map (\<lambda>r. r\<lparr>sort' := 0\<rparr>) (updateGroupSortFrom idx d gk up JQ) = map (\<lambda>r. r\<lparr>sort' := 0\<rparr>) d"
  by (induction d arbitrary: idx) auto

lemma updateRowSort_other:
  "i < length d \<Longrightarrow> key (d ! i) \<noteq> k \<Longrightarrow> updateRowSort d k v ! i = d ! i"
  by (simp add: updateRowSort_def)

lemma updateGroupSortFrom_other:
  "i < length d \<Longrightarrow> groupKey (d ! i) \<noteq> gk \<Longrightarrow> updateGroupSortFrom idx d gk up JQ ! i = d ! i"
proof (induction d arbitrary: idx i)
  case Nil
  then show ?case by simp
next
  case (Cons r rs)
  then show ?case by (cases i) auto
qed

text \<open>The result of \<open>computeNewSorts\<close> is its input, or one of the two updates of it.\<close>

lemma computeNewSorts_cases:
  "computeNewSorts d a ov = d
   \<or> (startsWith a ''row:'' \<and> (\<exists>v. computeNewSorts d a ov = updateRowSort d (drop (length ''row:'') a) v))
   \<or> (startsWith a ''group:'' \<and> (\<exists>up JQ. computeNewSorts d a ov = updateGroupSort d (drop (length ''group:'') a) up JQ))"
  unfolding computeNewSorts_def Let_def by (auto simp only: split: if_splits)

lemma frame_nth:
  assumes "map (\<lambda>r. r\<lparr>sort' := 0\<rparr>) xs = map (\<lambda>r. r\<lparr>sort' := 0\<rparr>) ys" "i < length ys"
  shows "xs ! i = (ys ! i)\<lparr>sort' := sort' (xs ! i)\<rparr>"
proof -
  have len: "length xs = length ys" using assms(1) by (metis length_map)
  have "(xs ! i)\<lparr>sort' := 0\<rparr> = (ys ! i)\<lparr>sort' := 0\<rparr>"
    using assms len by (metis nth_map)
  then have "(xs ! i)\<lparr>sort' := 0\<rparr>\<lparr>sort' := sort' (xs ! i)\<rparr> = (ys ! i)\<lparr>sort' := 0\<rparr>\<lparr>sort' := sort' (xs ! i)\<rparr>"
    by simp
  then show ?thesis by simp
qed

lemma computeNewSorts_frame:
  "map (\<lambda>r. r\<lparr>sort' := 0\<rparr>) (computeNewSorts d a ov) = map (\<lambda>r. r\<lparr>sort' := 0\<rparr>) d"
  using computeNewSorts_cases [of d a ov]
  by (auto simp: updateRowSort_frame updateGroupSortFrom_frame updateGroupSort_def)

lemma computeNewSorts_other:
  assumes "i < length d" "\<not> involved a (d ! i)"
  shows "computeNewSorts d a ov ! i = d ! i"
  using computeNewSorts_cases [of d a ov] assms
  by (auto simp: involved_def updateRowSort_other updateGroupSortFrom_other updateGroupSort_def)


lemma computeNewSorts_unchanged:
  assumes "getSortForId d a False = None \<or> getSortForId d ov False = None
           \<or> getSortForId d a False = getSortForId d ov False"
  shows "computeNewSorts d a ov = d"
  using assms unfolding computeNewSorts_def Let_def by auto

section \<open>Neighbours of a key\<close>


lemma sorted_map_last_max:
  "sorted (map f xs) \<Longrightarrow> x \<in> set xs \<Longrightarrow> f x \<le> f (last xs)"
  by (induction xs) (auto split: if_splits)

lemma sorted_map_hd_min:
  "sorted (map f xs) \<Longrightarrow> x \<in> set xs \<Longrightarrow> f (hd xs) \<le> f x"
  by (cases xs) auto

lemma sortBySort_set [simp]: "set (sortBySort rows) = set rows"
  by (simp add: sortBySort_def)

lemma sortBySort_length [simp]: "length (sortBySort rows) = length rows"
  by (simp add: sortBySort_def)

lemma sortBySort_Nil_iff [simp]: "sortBySort rows = [] \<longleftrightarrow> rows = []"
  using sortBySort_length [of rows] by (metis length_0_conv)

lemma sortBySort_last_max: "x \<in> set rows \<Longrightarrow> sort' x \<le> sort' (last (sortBySort rows))"
  using sorted_map_last_max [of sort' "sortBySort rows" x] by (simp add: sortBySort_def)

lemma sortBySort_hd_min: "x \<in> set rows \<Longrightarrow> sort' (hd (sortBySort rows)) \<le> sort' x"
  using sorted_map_hd_min [of sort' "sortBySort rows" x] by (simp add: sortBySort_def)

lemma sortBySort_last_in: "rows \<noteq> [] \<Longrightarrow> last (sortBySort rows) \<in> set rows"
  using last_in_set [of "sortBySort rows"] by (metis sortBySort_set set_empty)

lemma sortBySort_hd_in: "rows \<noteq> [] \<Longrightarrow> hd (sortBySort rows) \<in> set rows"
  using hd_in_set [of "sortBySort rows"] by (metis sortBySort_set set_empty)

lemma findPrevSort_Some:
  assumes "findPrevSort d s = Some p"
  shows "p < s" "\<exists>r\<in>set d. sort' r = p" "\<forall>r\<in>set d. sort' r < s \<longrightarrow> sort' r \<le> p"
proof -
  let ?f = "filter (\<lambda>i. sort' i < s) d"
  from assms have ne: "?f \<noteq> []" and p: "p = sort' (last (sortBySort ?f))"
    by (auto simp: findPrevSort_def Let_def split: if_splits)
  have "last (sortBySort ?f) \<in> set ?f" using ne by (rule sortBySort_last_in)
  then show "p < s" "\<exists>r\<in>set d. sort' r = p" using p by auto
  show "\<forall>r\<in>set d. sort' r < s \<longrightarrow> sort' r \<le> p"
    using sortBySort_last_max [of _ ?f] p by auto
qed

lemma findPrevSort_None:
  assumes "findPrevSort d s = None"
  shows "\<forall>r\<in>set d. s \<le> sort' r"
proof -
  from assms have "filter (\<lambda>i. sort' i < s) d = []"
    by (auto simp: findPrevSort_def Let_def split: if_splits)
  then show ?thesis by (auto simp: filter_empty_conv)
qed

lemma findNextSort_Some:
  assumes "findNextSort d s = Some n"
  shows "s < n" "\<exists>r\<in>set d. sort' r = n" "\<forall>r\<in>set d. s < sort' r \<longrightarrow> n \<le> sort' r"
proof -
  let ?f = "filter (\<lambda>i. sort' i > s) d"
  from assms have ne: "?f \<noteq> []" and n: "n = sort' (hd (sortBySort ?f))"
    by (auto simp: findNextSort_def Let_def split: if_splits)
  have "hd (sortBySort ?f) \<in> set ?f" using ne by (rule sortBySort_hd_in)
  then show "s < n" "\<exists>r\<in>set d. sort' r = n" using n by auto
  show "\<forall>r\<in>set d. s < sort' r \<longrightarrow> n \<le> sort' r"
    using sortBySort_hd_min [of _ ?f] n by auto
qed

lemma findNextSort_None:
  assumes "findNextSort d s = None"
  shows "\<forall>r\<in>set d. sort' r \<le> s"
proof -
  from assms have "filter (\<lambda>i. sort' i > s) d = []"
    by (auto simp: findNextSort_def Let_def split: if_splits)
  then show ?thesis by (auto simp: filter_empty_conv)
qed

text \<open>The interval between the two boundary keys holds no key of the collection.\<close>

lemma gap_up:
  assumes pos: "\<forall>r\<in>set d. 0 < sort' r" and y: "\<exists>r\<in>set d. sort' r = y"
  shows "0 \<le> orElse (findPrevSort d y) 0" "orElse (findPrevSort d y) 0 < y"
    "\<forall>r\<in>set d. sort' r \<le> orElse (findPrevSort d y) 0 \<or> y \<le> sort' r"
proof -
  have y0: "0 < y" using pos y by auto
  show "0 \<le> orElse (findPrevSort d y) 0"
  proof (cases "findPrevSort d y")
    case None then show ?thesis by (simp add: orElse_def)
  next
    case (Some p)
    then show ?thesis using findPrevSort_Some(2) [OF Some] pos by (auto simp: orElse_def intro: less_imp_le)
  qed
  show "orElse (findPrevSort d y) 0 < y"
  proof (cases "findPrevSort d y")
    case None then show ?thesis using y0 by (simp add: orElse_def)
  next
    case (Some p)
    then show ?thesis using findPrevSort_Some(1) [OF Some] by (simp add: orElse_def)
  qed
  show "\<forall>r\<in>set d. sort' r \<le> orElse (findPrevSort d y) 0 \<or> y \<le> sort' r"
  proof (cases "findPrevSort d y")
    case None then show ?thesis using findPrevSort_None [OF None] by simp
  next
    case (Some p)
    then show ?thesis using findPrevSort_Some(3) [OF Some] by (auto simp: orElse_def)
  qed
qed

lemma gap_down:
  assumes c: "0 < c"
  shows "z < orElse (findNextSort d z) (z + c)"
    "\<forall>r\<in>set d. sort' r \<le> z \<or> orElse (findNextSort d z) (z + c) \<le> sort' r"
proof -
  show "z < orElse (findNextSort d z) (z + c)"
  proof (cases "findNextSort d z")
    case None then show ?thesis using c by (simp add: orElse_def)
  next
    case (Some n)
    then show ?thesis using findNextSort_Some(1) [OF Some] by (simp add: orElse_def)
  qed
  show "\<forall>r\<in>set d. sort' r \<le> z \<or> orElse (findNextSort d z) (z + c) \<le> sort' r"
  proof (cases "findNextSort d z")
    case None then show ?thesis using findNextSort_None [OF None] by simp
  next
    case (Some n)
    then show ?thesis using findNextSort_Some(3) [OF Some] by (auto simp: orElse_def)
  qed
qed

subsection \<open>What an identifier resolves to\<close>

lemma getSortForId_row:
  assumes "startsWith a ''row:''"
  shows "getSortForId d a b = map_option sort' (find (\<lambda>x. key x = drop (length ''row:'') a) d)"
  using assms by (simp add: getSortForId_def Let_def split: option.splits)

lemma getSortForId_group_first:
  assumes "startsWith a ''group:''" "getSortForId d a False = Some x"
  shows "\<exists>r\<in>set d. groupKey r = drop (length ''group:'') a \<and> sort' r = x"
    "\<forall>r\<in>set d. groupKey r = drop (length ''group:'') a \<longrightarrow> x \<le> sort' r"
proof -
  let ?f = "filter (\<lambda>x. groupKey x = drop (length ''group:'') a) d"
  have ng: "\<not> startsWith a ''row:''" using assms(1) startsWith_row_not_group by blast
  from assms ng have ne: "?f \<noteq> []" and x: "x = sort' (hd (sortBySort ?f))"
    by (auto simp: getSortForId_def Let_def split: if_splits)
  have "hd (sortBySort ?f) \<in> set ?f" using ne by (rule sortBySort_hd_in)
  then show "\<exists>r\<in>set d. groupKey r = drop (length ''group:'') a \<and> sort' r = x" using x by auto
  show "\<forall>r\<in>set d. groupKey r = drop (length ''group:'') a \<longrightarrow> x \<le> sort' r"
    using sortBySort_hd_min [of _ ?f] x by auto
qed

lemma getSortForId_group_last:
  assumes "startsWith a ''group:''" "getSortForId d a True = Some x"
  shows "\<exists>r\<in>set d. groupKey r = drop (length ''group:'') a \<and> sort' r = x"
    "\<forall>r\<in>set d. groupKey r = drop (length ''group:'') a \<longrightarrow> sort' r \<le> x"
proof -
  let ?f = "filter (\<lambda>x. groupKey x = drop (length ''group:'') a) d"
  have ng: "\<not> startsWith a ''row:''" using assms(1) startsWith_row_not_group by blast
  from assms ng have ne: "?f \<noteq> []" and x: "x = sort' (last (sortBySort ?f))"
    by (auto simp: getSortForId_def Let_def split: if_splits)
  have "last (sortBySort ?f) \<in> set ?f" using ne by (rule sortBySort_last_in)
  then show "\<exists>r\<in>set d. groupKey r = drop (length ''group:'') a \<and> sort' r = x" using x by auto
  show "\<forall>r\<in>set d. groupKey r = drop (length ''group:'') a \<longrightarrow> sort' r \<le> x"
    using sortBySort_last_max [of _ ?f] x by auto
qed

lemma getSortForId_in:
  assumes "getSortForId d a b = Some x"
  shows "\<exists>r\<in>set d. sort' r = x"
proof (cases "startsWith a ''row:''")
  case True
  then obtain r where "find (\<lambda>x. key x = drop (length ''row:'') a) d = Some r" "sort' r = x"
    using assms by (auto simp: getSortForId_row)
  then show ?thesis by (auto simp: find_Some_iff)
next
  case False
  then have g: "startsWith a ''group:''" using assms by (auto simp: getSortForId_def split: if_splits)
  show ?thesis
  proof (cases b)
    case True
    then show ?thesis using getSortForId_group_last(1) [OF g, of d x] assms by auto
  next
    case False
    then show ?thesis using getSortForId_group_first(1) [OF g, of d x] assms by auto
  qed
qed

lemma getSortForId_None_iff:
  "getSortForId d a b = None \<longleftrightarrow> \<not> resolves d a"
proof (cases "startsWith a ''row:''")
  case True
  then show ?thesis
    by (auto simp: getSortForId_row resolves_def find_None_iff)
next
  case False
  then show ?thesis
    by (auto simp: getSortForId_def resolves_def Let_def filter_empty_conv)
qed

lemma getSortForId_end_resolves:
  assumes "getSortForId d ov False = Some y"
  shows "\<exists>z. getSortForId d ov True = Some z \<and> y \<le> z"
proof (cases "startsWith ov ''row:''")
  case True
  then have "getSortForId d ov True = getSortForId d ov False" by (simp only: getSortForId_row)
  then show ?thesis using assms by simp
next
  case False
  then have g: "startsWith ov ''group:''" using assms by (auto simp: getSortForId_def split: if_splits)
  let ?f = "filter (\<lambda>x. groupKey x = drop (length ''group:'') ov) d"
  from assms False g have ne: "?f \<noteq> []" and y: "y = sort' (hd (sortBySort ?f))"
    by (auto simp: getSortForId_def Let_def split: if_splits)
  have z: "getSortForId d ov True = Some (sort' (last (sortBySort ?f)))"
    using False g ne by (simp add: getSortForId_def Let_def)
  have "hd (sortBySort ?f) \<in> set ?f" using ne by (rule sortBySort_hd_in)
  then have "y \<le> sort' (last (sortBySort ?f))" using sortBySort_last_max [of _ ?f] y by blast
  then show ?thesis using z by simp
qed

subsection \<open>The four moves\<close>

lemma computeNewSorts_row_up:
  assumes "startsWith a ''row:''" "getSortForId d a False = Some x" "getSortForId d ov False = Some y"
    "y < x"
  shows "computeNewSorts d a ov =
     updateRowSort d (drop (length ''row:'') a)
       ((y - orElse (findPrevSort d y) 0) / 2 + orElse (findPrevSort d y) 0)"
  using assms startsWith_row_not_group [OF assms(1)]
  by (simp add: computeNewSorts_def Let_def toNumber_def findPrev_def)

lemma computeNewSorts_row_down:
  assumes "startsWith a ''row:''" "getSortForId d a False = Some x" "getSortForId d ov False = Some y"
    "x < y" "getSortForId d ov True = Some z"
  shows "computeNewSorts d a ov =
     updateRowSort d (drop (length ''row:'') a) (z + (orElse (findNextSort d z) (z + 2) - z) / 2)"
  using assms startsWith_row_not_group [OF assms(1)]
  by (simp add: computeNewSorts_def Let_def toNumber_def findNext_def)

lemma computeNewSorts_group_up:
  assumes "startsWith a ''group:''" "getSortForId d a False = Some x" "getSortForId d ov False = Some y"
    "y < x"
  shows "computeNewSorts d a ov =
     updateGroupSort d (drop (length ''group:'') a) (orElse (findPrevSort d y) 0)
       ((y - orElse (findPrevSort d y) 0)
          / (of_nat (length (filter (\<lambda>r. groupKey r = drop (length ''group:'') a) d)) + 1))"
  using assms startsWith_row_not_group [of a]
  by (auto simp add: computeNewSorts_def Let_def toNumber_def findPrev_def)

lemma computeNewSorts_group_down:
  assumes "startsWith a ''group:''" "getSortForId d a False = Some x" "getSortForId d ov False = Some y"
    "x < y" "getSortForId d ov True = Some z"
  shows "computeNewSorts d a ov =
     updateGroupSort d (drop (length ''group:'') a) z
       ((orElse (findNextSort d z)
            (z + of_nat (length (filter (\<lambda>r. groupKey r = drop (length ''group:'') a) d)) + 1) - z)
          / (of_nat (length (filter (\<lambda>r. groupKey r = drop (length ''group:'') a) d)) + 1))"
  using assms startsWith_row_not_group [of a]
  by (auto simp add: computeNewSorts_def Let_def toNumber_def findNext_def)


section \<open>Rounding to a double\<close>

lemma pow2_pos: "0 < pow2 e"
  by (simp add: pow2_def)

lemma pow2_Suc: "pow2 (e + 1) = 2 * pow2 e"
proof (cases "0 \<le> e")
  case True
  then show ?thesis by (simp add: pow2_def nat_add_distrib)
next
  case False
  then have "nat (- e) = Suc (nat (- (e + 1)))" by simp
  then show ?thesis using False by (simp add: pow2_def)
qed

lemma binaryExponent_bounds:
  assumes "0 < x"
  shows "pow2 (binaryExponent x) \<le> x \<and> x < pow2 (binaryExponent x + 1)"
proof (cases "1 \<le> x")
  case True
  let ?n = "\<lfloor>x\<rfloor>"
  have n: "0 < ?n" using True by simp
  have e: "binaryExponent x = bitlen ?n - 1" using True by (simp add: binaryExponent_def)
  have b1: "1 \<le> bitlen ?n" using n by (simp add: bitlen_alt_def)
  from bitlen_bounds [OF n] have lo: "2 ^ nat (bitlen ?n - 1) \<le> ?n" and hi: "?n < 2 ^ nat (bitlen ?n)"
    by auto
  have "(2::rat) ^ nat (bitlen ?n - 1) \<le> of_int ?n"
    using lo by (metis of_int_le_iff of_int_numeral of_int_power)
  also have "\<dots> \<le> x" by simp
  finally have L: "pow2 (binaryExponent x) \<le> x" using b1 by (simp add: e pow2_def)
  have "?n + 1 \<le> 2 ^ nat (bitlen ?n)" using hi by simp
  then have "(of_int (?n + 1) :: rat) \<le> 2 ^ nat (bitlen ?n)"
    by (metis of_int_le_iff of_int_numeral of_int_power)
  moreover have "x < of_int (?n + 1)" by linarith
  ultimately have "x < 2 ^ nat (bitlen ?n)" by linarith
  then have U: "x < pow2 (binaryExponent x + 1)" using b1 by (simp add: e pow2_def)
  show ?thesis using L U by simp
next
  case False
  let ?y = "1 / x"
  let ?m = "\<lceil>?y\<rceil> - 1"
  have x1: "x < 1" using False by simp
  have y1: "1 < ?y" using assms x1 by simp
  have m: "0 < ?m" using y1 by linarith
  let ?k = "bitlen ?m"
  have e: "binaryExponent x = - ?k" using False by (simp add: binaryExponent_def)
  have k1: "1 \<le> ?k" using m by (simp add: bitlen_alt_def)
  from bitlen_bounds [OF m] have lo: "2 ^ nat (?k - 1) \<le> ?m" and hi: "?m < 2 ^ nat ?k"
    by auto
  have "?m + 1 \<le> 2 ^ nat ?k" using hi by simp
  then have "(of_int (?m + 1) :: rat) \<le> 2 ^ nat ?k"
    by (metis of_int_le_iff of_int_numeral of_int_power)
  moreover have "?y \<le> of_int (?m + 1)" by simp
  ultimately have "?y \<le> 2 ^ nat ?k" by linarith
  then have "1 \<le> x * 2 ^ nat ?k" using assms by (simp add: field_simps)
  then have "1 / 2 ^ nat ?k \<le> x" by (simp add: field_simps)
  then have L: "pow2 (binaryExponent x) \<le> x" using k1 by (simp add: e pow2_def)
  have "(2::rat) ^ nat (?k - 1) \<le> of_int ?m"
    using lo by (metis of_int_le_iff of_int_numeral of_int_power)
  moreover have "of_int ?m < ?y" by linarith
  ultimately have "2 ^ nat (?k - 1) < ?y" by linarith
  then have "x * 2 ^ nat (?k - 1) < 1" using assms by (simp add: field_simps)
  then have "x < 1 / 2 ^ nat (?k - 1)" by (simp add: field_simps)
  moreover have "pow2 (- ?k + 1) = 1 / 2 ^ nat (?k - 1)"
    using k1 by (cases "?k = 1") (auto simp: pow2_def)
  ultimately have U: "x < pow2 (binaryExponent x + 1)" by (simp add: e)
  show ?thesis using L U by simp
qed

lemma roundHalfEven_nearest: "\<bar>of_int (roundHalfEven q) - q\<bar> \<le> 1 / 2"
proof -
  define f where "f = q - of_int \<lfloor>q\<rfloor>"
  have f: "0 \<le> f" "f < 1" unfolding f_def by linarith+
  have "\<bar>of_int \<lfloor>q\<rfloor> - q\<bar> = f" "\<bar>of_int (\<lfloor>q\<rfloor> + 1) - q\<bar> = 1 - f"
    using f unfolding f_def by simp_all
  then show ?thesis
    unfolding roundHalfEven_def Let_def f_def [symmetric] using f by (simp only: split: if_splits) linarith
qed

lemma roundDouble_nearest:
  "\<bar>roundDouble x - x\<bar> \<le> pow2 (max (binaryExponent \<bar>x\<bar>) (- 1022) - 52) / 2"
proof (cases "x = 0")
  case True
  then show ?thesis using pow2_pos [of "max (binaryExponent \<bar>x\<bar>) (- 1022) - 52"]
    by (simp add: roundDouble_def)
next
  case False
  let ?u = "pow2 (max (binaryExponent \<bar>x\<bar>) (- 1022) - 52)"
  have u: "0 < ?u" by (rule pow2_pos)
  have "roundDouble x - x = (of_int (roundHalfEven (x / ?u)) - x / ?u) * ?u"
    using False u by (simp add: roundDouble_def Let_def field_simps)
  then have "\<bar>roundDouble x - x\<bar> = \<bar>of_int (roundHalfEven (x / ?u)) - x / ?u\<bar> * ?u"
    using u by (simp add: abs_mult)
  also have "\<dots> \<le> 1 / 2 * ?u"
    using roundHalfEven_nearest [of "x / ?u"] u by (intro mult_right_mono) simp_all
  finally show ?thesis by simp
qed

lemma roundDouble_examples:
  "roundDouble 1 = 1 \<and> roundDouble (1 + 1 / 2 ^ 52) = 1 + 1 / 2 ^ 52 \<and>
   roundDouble (1 + 1 / 2 ^ 53) = 1 \<and> roundDouble (1 + 3 / 2 ^ 53) = 1 + 2 / 2 ^ 52 \<and>
   roundDouble (1 / 10) = 3602879701896397 / 2 ^ 55 \<and>
   roundDouble (1 / 3) = 6004799503160661 / 2 ^ 54 \<and>
   roundDouble (2 ^ 53 + 1) = 2 ^ 53 \<and> roundDouble (- (5 / 2)) = - (5 / 2)"
  by code_simp

subsection \<open>The two versions of the calculation\<close>

lemma updateGroupSortFromR_exact:
  "updateGroupSortFromR (\<lambda>x. x) idx d gk up JQ = updateGroupSortFrom idx d gk up JQ"
  by (induction d arbitrary: idx) auto

lemma computeNewSortsR_exact:
  "computeNewSortsR (\<lambda>x. x) d a ov = computeNewSorts d a ov"
  by (simp add: computeNewSortsR_def computeNewSorts_def updateGroupSortR_def updateGroupSort_def
      updateGroupSortFromR_exact add.assoc cong: if_cong)

text \<open>
  On the seed collection the row move of the specification is the same in double arithmetic,
  and the group move gives the doubles nearest to 1/3 and 2/3.
\<close>

lemma seed_moves_in_doubles:
  "computeNewSortsR roundDouble initialData ''row:1-2'' ''row:2-1''
     = computeNewSorts initialData ''row:1-2'' ''row:2-1'' \<and>
   map sort' (computeNewSortsR roundDouble initialData ''group:group-B'' ''group:group-A'')
     = [1, 2, 3, roundDouble (1 / 3), roundDouble (2 / 3), 6]"
  by code_simp

section \<open>The frame of a move\<close>

text \<open>
  Claim C10. For every collection and every pair of identifiers, \<open>computeNewSorts\<close> returns
  the rows of its input, in the same number and with the same row keys, and every field of
  every row except the order key is unchanged: the two collections are equal once the order
  keys are blanked. In particular the \<open>groupKey\<close> of a moved row is never reassigned.
\<close>

theorem computeNewSorts_keeps_rows_and_fields:
  "map (\<lambda>r. r\<lparr>sort' := 0\<rparr>) (computeNewSorts d a ov) = map (\<lambda>r. r\<lparr>sort' := 0\<rparr>) d \<and>
   length (computeNewSorts d a ov) = length d \<and>
   map key (computeNewSorts d a ov) = map key d \<and>
   map groupKey (computeNewSorts d a ov) = map groupKey d \<and>
   map groupSize (computeNewSorts d a ov) = map groupSize d \<and>
   map category (computeNewSorts d a ov) = map category d \<and>
   map name (computeNewSorts d a ov) = map name d \<and>
   map count' (computeNewSorts d a ov) = map count' d"
proof -
  let ?res = "computeNewSorts d a ov"
  let ?c = "\<lambda>r::RowItem. r\<lparr>sort' := 0\<rparr>"
  have fr: "map ?c ?res = map ?c d" by (rule computeNewSorts_frame)
  have f: "map (f \<circ> ?c) ?res = map (f \<circ> ?c) d" for f :: "RowItem \<Rightarrow> 'b"
    using arg_cong [OF fr, of "map f"] by simp
  have "length ?res = length d" using fr by (metis length_map)
  moreover have "map key ?res = map key d" using f [of key] by (simp add: comp_def)
  moreover have "map groupKey ?res = map groupKey d" using f [of groupKey] by (simp add: comp_def)
  moreover have "map groupSize ?res = map groupSize d" using f [of groupSize] by (simp add: comp_def)
  moreover have "map category ?res = map category d" using f [of category] by (simp add: comp_def)
  moreover have "map name ?res = map name d" using f [of name] by (simp add: comp_def)
  moreover have "map count' ?res = map count' d" using f [of count'] by (simp add: comp_def)
  ultimately show ?thesis using fr by simp
qed

text \<open>
  Claim C9. The collection returned by \<open>computeNewSorts\<close> has the length of its input; at
  every position the returned row is the input row up to its order key; and a row that is not
  involved in the move (it is neither the active row nor a member of the active group) is
  returned as it is, order key included. This holds for every pair of identifiers, so also for
  the resolvable pairs with a direction.
\<close>

theorem computeNewSorts_changes_only_sort_of_involved:
  "length (computeNewSorts d a ov) = length d \<and>
   (\<forall>i<length d.
      computeNewSorts d a ov ! i = (d ! i)\<lparr>sort' := sort' (computeNewSorts d a ov ! i)\<rparr> \<and>
      (\<not> involved a (d ! i) \<longrightarrow> computeNewSorts d a ov ! i = d ! i))"
proof -
  have "length (computeNewSorts d a ov) = length d"
    using computeNewSorts_frame [of d a ov] by (metis length_map)
  then show ?thesis
    using frame_nth [OF computeNewSorts_frame] computeNewSorts_other by blast
qed

theorem computeNewSorts_changes_only_sort_of_involved_witness:
  "(3::nat) < length initialData \<and> \<not> involved ''row:1-2'' (initialData ! 3) \<and>
   computeNewSorts initialData ''row:1-2'' ''row:2-1'' ! 3 = initialData ! 3 \<and>
   length (computeNewSorts initialData ''row:1-2'' ''row:2-1'') = 6"
  using computeNewSorts_changes_only_sort_of_involved [of initialData "''row:1-2''" "''row:2-1''"]
  by (simp add: initialData_def involved_def startsWith_def)

section \<open>Moves that change nothing\<close>

text \<open>
  Claim C7. \<open>computeNewSorts\<close> returns its input when the active or the over identifier
  does not resolve (it names no row of the collection and no group with a member), and when
  both resolve to the same representative key, the key of the row or of the first member of
  the group; in particular when they are the same identifier. The function is total: no
  case raises.
\<close>

theorem computeNewSorts_noop:
  "(\<not> resolves d a \<or> \<not> resolves d ov \<or> getSortForId d a False = getSortForId d ov False
      \<longrightarrow> computeNewSorts d a ov = d) \<and>
   computeNewSorts d a a = d"
  using computeNewSorts_unchanged [of d a ov] computeNewSorts_unchanged [of d a a]
  by (simp add: getSortForId_None_iff)

theorem computeNewSorts_noop_witness:
  "\<not> resolves initialData ''row:9-9'' \<and>
   computeNewSorts initialData ''row:9-9'' ''row:1-2'' = initialData \<and>
   \<not> resolves initialData ''group:group-Z'' \<and>
   computeNewSorts initialData ''row:1-2'' ''group:group-Z'' = initialData \<and>
   \<not> resolves initialData ''1-2'' \<and>
   computeNewSorts initialData ''1-2'' ''row:1-1'' = initialData \<and>
   getSortForId initialData ''row:1-1'' False = Some 1 \<and>
   getSortForId initialData ''group:group-A'' False = Some 1 \<and>
   computeNewSorts initialData ''row:1-1'' ''group:group-A'' = initialData \<and>
   computeNewSorts initialData ''row:1-2'' ''row:1-2'' = initialData"
  using computeNewSorts_noop [of initialData "''row:9-9''" "''row:1-2''"]
    computeNewSorts_noop [of initialData "''row:1-2''" "''group:group-Z''"]
    computeNewSorts_noop [of initialData "''1-2''" "''row:1-1''"]
    computeNewSorts_noop [of initialData "''row:1-1''" "''group:group-A''"]
    computeNewSorts_noop [of initialData "''row:1-2''" "''row:1-2''"]
  by (simp add: initialData_def getSortForId_def resolves_def startsWith_def sortBySort_def)

section \<open>The seed collection\<close>

lemmas seed_defs = computeNewSorts_def initialData_def getSortForId_def startsWith_def
  toNumber_def orElse_def findNext_def findPrev_def findNextSort_def findPrevSort_def
  sortBySort_def updateRowSort_def updateGroupSort_def Let_def

text \<open>
  Claim C3, as the code has it. On the seed collection, moving the row with order key 2
  (\<open>row:1-2\<close>) onto the row with order key 4 (\<open>row:2-1\<close>) gives the moved row the order key
  9/2, strictly between 4 and 5, and changes nothing else: every other row is returned as it
  is, and the moved row keeps its \<open>groupKey\<close>, \<open>group-A\<close>.
\<close>

theorem seed_row_move:
  "computeNewSorts initialData ''row:1-2'' ''row:2-1''
     = initialData[1 := (initialData ! 1)\<lparr>sort' := 9 / 2\<rparr>] \<and>
   sort' (computeNewSorts initialData ''row:1-2'' ''row:2-1'' ! 1) = 9 / 2 \<and>
   4 < sort' (computeNewSorts initialData ''row:1-2'' ''row:2-1'' ! 1) \<and>
   sort' (computeNewSorts initialData ''row:1-2'' ''row:2-1'' ! 1) < 5 \<and>
   groupKey (computeNewSorts initialData ''row:1-2'' ''row:2-1'' ! 1) = ''group-A'' \<and>
   map sort' (computeNewSorts initialData ''row:1-2'' ''row:2-1'') = [1, 9 / 2, 3, 4, 5, 6]"
  by (simp add: seed_defs)

text \<open>
  Claim C3, as the specification states it, fails: the moved row does not take the
  \<open>groupKey\<close> of the target row, which is \<open>group-B\<close>.
\<close>

theorem seed_row_move_groupKey_not_reassigned:
  "key (initialData ! 3) = ''2-1'' \<and>
   groupKey (initialData ! 3) = ''group-B'' \<and>
   key (computeNewSorts initialData ''row:1-2'' ''row:2-1'' ! 1) = ''1-2'' \<and>
   groupKey (computeNewSorts initialData ''row:1-2'' ''row:2-1'' ! 1) \<noteq> groupKey (initialData ! 3)"
  by (simp add: seed_defs)

text \<open>
  Claim C6. On the seed collection, moving \<open>group-B\<close> onto \<open>group-A\<close> is a move up with no
  key below 1, so the lower bound is 0: the two members of \<open>group-B\<close> get the order keys 1/3
  and 2/3 in their order, and the rows of \<open>group-A\<close> and \<open>group-C\<close> are returned as they are.
\<close>

theorem seed_group_move:
  "computeNewSorts initialData ''group:group-B'' ''group:group-A''
     = initialData[3 := (initialData ! 3)\<lparr>sort' := 1 / 3\<rparr>, 4 := (initialData ! 4)\<lparr>sort' := 2 / 3\<rparr>] \<and>
   map key (computeNewSorts initialData ''group:group-B'' ''group:group-A'')
     = [''1-1'', ''1-2'', ''1-3'', ''2-1'', ''2-2'', ''3-1''] \<and>
   map sort' (computeNewSorts initialData ''group:group-B'' ''group:group-A'')
     = [1, 2, 3, 1 / 3, 2 / 3, 6]"
  by (simp add: seed_defs)


section \<open>Moving one row\<close>

lemma findNextSort_eq:
  assumes "S \<in> set d" "z < sort' S" "\<forall>r\<in>set d. z < sort' r \<longrightarrow> sort' S \<le> sort' r"
  shows "findNextSort d z = Some (sort' S)"
proof (cases "findNextSort d z")
  case None
  then show ?thesis using findNextSort_None [OF None] assms by force
next
  case (Some n)
  have "n \<le> sort' S" using findNextSort_Some(3) [OF Some] assms by blast
  moreover have "sort' S \<le> n" using findNextSort_Some(1,2) [OF Some] assms(3) by blast
  ultimately show ?thesis using Some by simp
qed

lemma findPrevSort_eq:
  assumes "P \<in> set d" "sort' P < z" "\<forall>r\<in>set d. sort' r < z \<longrightarrow> sort' r \<le> sort' P"
  shows "findPrevSort d z = Some (sort' P)"
proof (cases "findPrevSort d z")
  case None
  then show ?thesis using findPrevSort_None [OF None] assms by force
next
  case (Some p)
  have "sort' P \<le> p" using findPrevSort_Some(3) [OF Some] assms by blast
  moreover have "p \<le> sort' P" using findPrevSort_Some(1,2) [OF Some] assms(3) by blast
  ultimately show ?thesis using Some by simp
qed

lemma findPrevSort_eq_None:
  assumes "\<forall>r\<in>set d. z \<le> sort' r"
  shows "findPrevSort d z = None"
proof (cases "findPrevSort d z")
  case None
  then show ?thesis .
next
  case (Some p)
  then show ?thesis using findPrevSort_Some(1,2) [OF Some] assms by force
qed

lemma startsWith_row [simp]: "startsWith (''row:'' @ k) ''row:''"
  by (simp add: startsWith_def)

lemma startsWith_group [simp]: "startsWith (''group:'' @ g) ''group:''"
  by (simp add: startsWith_def)

lemma getSortForId_row_id:
  "getSortForId d (''row:'' @ k) b = map_option sort' (find (\<lambda>x. key x = k) d)"
  using getSortForId_row [OF startsWith_row, of d k b] by simp

text \<open>
  Claim C5, in exact arithmetic. Let the row identifiers \<open>k\<close> and \<open>t\<close> resolve to the rows
  \<open>R\<close> and \<open>T\<close>, and let the arithmetic on the order keys be exact.
  \<^item> Down: when the key of \<open>R\<close> is below the key of \<open>T\<close> and \<open>S\<close> carries the smallest
    key above the key of \<open>T\<close>, the rows with identifier \<open>k\<close> get the midpoint of the keys of
    \<open>T\<close> and \<open>S\<close>, which lies strictly between them, and every other row is returned as it is.
  \<^item> Up: when the key of \<open>R\<close> is above the key of \<open>T\<close> and \<open>P\<close> carries the largest key
    below the key of \<open>T\<close>, the new key is the midpoint of the keys of \<open>P\<close> and \<open>T\<close>,
    strictly between them; when no key is below the key of \<open>T\<close>, it is the midpoint of
    0 and the key of \<open>T\<close>. Again every other row is returned as it is.
\<close>

theorem row_move_midpoint:
  assumes R: "find (\<lambda>x. key x = k) d = Some R" and T: "find (\<lambda>x. key x = t) d = Some T"
  shows
    "(sort' R < sort' T \<and> S \<in> set d \<and> sort' T < sort' S \<and>
        (\<forall>r\<in>set d. sort' T < sort' r \<longrightarrow> sort' S \<le> sort' r) \<longrightarrow>
      computeNewSorts d (''row:'' @ k) (''row:'' @ t)
        = map (\<lambda>r. if key r = k then r\<lparr>sort' := sort' T + (sort' S - sort' T) / 2\<rparr> else r) d \<and>
      sort' T < sort' T + (sort' S - sort' T) / 2 \<and>
      sort' T + (sort' S - sort' T) / 2 < sort' S) \<and>
     (sort' T < sort' R \<and> P \<in> set d \<and> sort' P < sort' T \<and>
        (\<forall>r\<in>set d. sort' r < sort' T \<longrightarrow> sort' r \<le> sort' P) \<longrightarrow>
      computeNewSorts d (''row:'' @ k) (''row:'' @ t)
        = map (\<lambda>r. if key r = k then r\<lparr>sort' := (sort' P + sort' T) / 2\<rparr> else r) d \<and>
      sort' P < (sort' P + sort' T) / 2 \<and> (sort' P + sort' T) / 2 < sort' T) \<and>
     (sort' T < sort' R \<and> (\<forall>r\<in>set d. sort' T \<le> sort' r) \<longrightarrow>
      computeNewSorts d (''row:'' @ k) (''row:'' @ t)
        = map (\<lambda>r. if key r = k then r\<lparr>sort' := (0 + sort' T) / 2\<rparr> else r) d)"
proof -
  have a: "getSortForId d (''row:'' @ k) False = Some (sort' R)"
    and o: "getSortForId d (''row:'' @ t) b = Some (sort' T)" for b
    using R T by (simp_all only: getSortForId_row_id option.map)
  have k: "drop (length ''row:'') (''row:'' @ k) = k" by simp
  have down: "computeNewSorts d (''row:'' @ k) (''row:'' @ t)
        = map (\<lambda>r. if key r = k then r\<lparr>sort' := sort' T + (sort' S - sort' T) / 2\<rparr> else r) d"
    if "sort' R < sort' T" "S \<in> set d" "sort' T < sort' S"
       "\<forall>r\<in>set d. sort' T < sort' r \<longrightarrow> sort' S \<le> sort' r"
    using computeNewSorts_row_down [OF startsWith_row a o that(1) o]
      findNextSort_eq [OF that(2,3,4)]
    by (simp only: k) (simp add: orElse_def updateRowSort_def)
  have up: "computeNewSorts d (''row:'' @ k) (''row:'' @ t)
        = map (\<lambda>r. if key r = k then r\<lparr>sort' := (sort' P + sort' T) / 2\<rparr> else r) d"
    if "sort' T < sort' R" "P \<in> set d" "sort' P < sort' T"
       "\<forall>r\<in>set d. sort' r < sort' T \<longrightarrow> sort' r \<le> sort' P"
  proof -
    have "(sort' T - sort' P) / 2 + sort' P = (sort' P + sort' T) / 2" by (simp add: field_simps)
    then show ?thesis
      using computeNewSorts_row_up [OF startsWith_row a o that(1)]
        findPrevSort_eq [OF that(2,3,4)]
      by (simp only: k) (simp add: orElse_def updateRowSort_def)
  qed
  have up0: "computeNewSorts d (''row:'' @ k) (''row:'' @ t)
        = map (\<lambda>r. if key r = k then r\<lparr>sort' := (0 + sort' T) / 2\<rparr> else r) d"
    if "sort' T < sort' R" "\<forall>r\<in>set d. sort' T \<le> sort' r"
    using computeNewSorts_row_up [OF startsWith_row a o that(1)]
      findPrevSort_eq_None [OF that(2)]
    by (simp only: k) (simp add: orElse_def updateRowSort_def)
  have m1: "x < x + (y - x) / 2 \<and> x + (y - x) / 2 < y" if "x < y" for x y :: rat
    using that by (simp add: field_simps)
  have m2: "x < (x + y) / 2 \<and> (x + y) / 2 < y" if "x < y" for x y :: rat
    using that by (simp add: field_simps)
  show ?thesis using down up up0 m1 m2 by blast
qed

theorem row_move_midpoint_witness:
  "find (\<lambda>x. key x = ''1-2'') initialData = Some (initialData ! 1) \<and>
   find (\<lambda>x. key x = ''2-1'') initialData = Some (initialData ! 3) \<and>
   sort' (initialData ! 1) < sort' (initialData ! 3) \<and>
   initialData ! 4 \<in> set initialData \<and>
   sort' (initialData ! 3) < sort' (initialData ! 4) \<and>
   list_all (\<lambda>r. sort' (initialData ! 3) < sort' r \<longrightarrow> sort' (initialData ! 4) \<le> sort' r) initialData \<and>
   computeNewSorts initialData ''row:1-2'' ''row:2-1''
     = map (\<lambda>r. if key r = ''1-2'' then r\<lparr>sort' := 9 / 2\<rparr> else r) initialData \<and>
   find (\<lambda>x. key x = ''1-3'') initialData = Some (initialData ! 2) \<and>
   sort' (initialData ! 1) < sort' (initialData ! 2) \<and>
   initialData ! 0 \<in> set initialData \<and>
   sort' (initialData ! 0) < sort' (initialData ! 1) \<and>
   list_all (\<lambda>r. sort' r < sort' (initialData ! 1) \<longrightarrow> sort' r \<le> sort' (initialData ! 0)) initialData \<and>
   computeNewSorts initialData ''row:1-3'' ''row:1-2''
     = map (\<lambda>r. if key r = ''1-3'' then r\<lparr>sort' := 3 / 2\<rparr> else r) initialData \<and>
   find (\<lambda>x. key x = ''1-1'') initialData = Some (initialData ! 0) \<and>
   list_all (\<lambda>r. sort' (initialData ! 0) \<le> sort' r) initialData \<and>
   computeNewSorts initialData ''row:1-3'' ''row:1-1''
     = map (\<lambda>r. if key r = ''1-3'' then r\<lparr>sort' := 1 / 2\<rparr> else r) initialData"
  using row_move_midpoint [of "''1-2''" initialData "initialData ! 1" "''2-1''" "initialData ! 3"
      "initialData ! 4" "initialData ! 0"]
    row_move_midpoint [of "''1-3''" initialData "initialData ! 2" "''1-2''" "initialData ! 1"
      "initialData ! 4" "initialData ! 0"]
    row_move_midpoint [of "''1-3''" initialData "initialData ! 2" "''1-1''" "initialData ! 0"
      "initialData ! 4" "initialData ! 0"]
  by (simp add: initialData_def)


text \<open>
  Claim C5, as the specification states it, fails in double arithmetic: when the target
  \<open>T\<close> and its successor \<open>S\<close> carry neighbouring doubles there is no double strictly between
  them. On \<open>closeKeysData\<close>, whose keys 1/2, 1 and \<open>1 + 1 / 2 ^ 52\<close> are doubles, distinct
  and positive, moving the row \<open>r\<close> down onto the row \<open>t\<close> computes \<open>1 + 1 / 2 ^ 53\<close>,
  which rounds to 1: the moved row gets the key of \<open>T\<close> itself.
\<close>

theorem row_move_rounds_onto_target:
  "map sort' closeKeysData = [1 / 2, 1, 1 + 1 / 2 ^ 52] \<and>
   map roundDouble (map sort' closeKeysData) = map sort' closeKeysData \<and>
   find (\<lambda>x. key x = ''r'') closeKeysData = Some (closeKeysData ! 0) \<and>
   find (\<lambda>x. key x = ''t'') closeKeysData = Some (closeKeysData ! 1) \<and>
   findNextSort closeKeysData (sort' (closeKeysData ! 1)) = Some (sort' (closeKeysData ! 2)) \<and>
   map sort' (computeNewSortsR roundDouble closeKeysData ''row:r'' ''row:t'')
     = [1, 1, 1 + 1 / 2 ^ 52] \<and>
   \<not> sort' (closeKeysData ! 1)
       < sort' (computeNewSortsR roundDouble closeKeysData ''row:r'' ''row:t'' ! 0)"
  by code_simp

section \<open>Keys stay unique\<close>

lemma updateRowSort_absent:
  "k \<notin> key ` set d \<Longrightarrow> updateRowSort d k v = d"
  by (induction d) (auto simp: updateRowSort_def)

lemma updateRowSort_sorts_subset:
  "sort' ` set (updateRowSort d k v) \<subseteq> insert v (sort' ` set d)"
  by (auto simp: updateRowSort_def)

lemma distinct_updateRowSort:
  assumes "distinct (map key d)" "distinct (map sort' d)" "v \<notin> sort' ` set d"
  shows "distinct (map sort' (updateRowSort d k v))"
  using assms
proof (induction d)
  case Nil
  then show ?case by (simp add: updateRowSort_def)
next
  case (Cons r rs)
  have IH: "distinct (map sort' (updateRowSort rs k v))" using Cons by simp
  show ?case
  proof (cases "key r = k")
    case True
    then have "k \<notin> key ` set rs" using Cons.prems(1) by auto
    then have "updateRowSort rs k v = rs" by (rule updateRowSort_absent)
    then have "updateRowSort (r # rs) k v = r\<lparr>sort' := v\<rparr> # rs"
      using True by (simp add: updateRowSort_def)
    then show ?thesis using Cons.prems by auto
  next
    case False
    have "sort' r \<notin> insert v (sort' ` set rs)" using Cons.prems by auto
    then have "sort' r \<notin> sort' ` set (updateRowSort rs k v)"
      using updateRowSort_sorts_subset [of rs k v] by blast
    moreover have "updateRowSort (r # rs) k v = r # updateRowSort rs k v"
      using False by (simp add: updateRowSort_def)
    ultimately show ?thesis using IH by simp
  qed
qed

lemma updateGroupSortFrom_sorts:
  assumes "x \<in> sort' ` set (updateGroupSortFrom idx d gk up JQ)"
  shows "(\<exists>r\<in>set d. groupKey r \<noteq> gk \<and> sort' r = x)
     \<or> (\<exists>i. idx \<le> i \<and> i < idx + length (filter (\<lambda>r. groupKey r = gk) d) \<and> x = up + JQ * of_nat i)"
  using assms
proof (induction d arbitrary: idx)
  case Nil
  then show ?case by simp
next
  case (Cons r rs)
  show ?case
  proof (cases "groupKey r = gk")
    case True
    then consider "x = up + JQ * of_nat idx" | "x \<in> sort' ` set (updateGroupSortFrom (idx + 1) rs gk up JQ)"
      using Cons.prems by auto
    then show ?thesis
    proof cases
      case 1
      then show ?thesis using True by auto
    next
      case 2
      from Cons.IH [OF 2] show ?thesis
      proof
        assume "\<exists>r\<in>set rs. groupKey r \<noteq> gk \<and> sort' r = x"
        then show ?thesis by auto
      next
        assume "\<exists>i\<ge>idx + 1. i < idx + 1 + length (filter (\<lambda>r. groupKey r = gk) rs) \<and> x = up + JQ * of_nat i"
        then obtain i where "idx + 1 \<le> i" "i < idx + 1 + length (filter (\<lambda>r. groupKey r = gk) rs)"
          "x = up + JQ * of_nat i" by blast
        then have "idx \<le> i \<and> i < idx + length (filter (\<lambda>r. groupKey r = gk) (r # rs)) \<and> x = up + JQ * of_nat i"
          using True by simp
        then show ?thesis by blast
      qed
    qed
  next
    case False
    then consider "x = sort' r" | "x \<in> sort' ` set (updateGroupSortFrom idx rs gk up JQ)"
      using Cons.prems by auto
    then show ?thesis
    proof cases
      case 1
      then show ?thesis using False by auto
    next
      case 2
      from Cons.IH [OF 2] show ?thesis using False by auto
    qed
  qed
qed

lemma distinct_updateGroupSortFrom:
  assumes "distinct (map sort' d)" "0 < JQ"
    "\<forall>r\<in>set d. \<forall>i. idx \<le> i \<and> i < idx + length (filter (\<lambda>r. groupKey r = gk) d)
        \<longrightarrow> sort' r \<noteq> up + JQ * of_nat i"
  shows "distinct (map sort' (updateGroupSortFrom idx d gk up JQ))"
  using assms
proof (induction d arbitrary: idx)
  case Nil
  then show ?case by simp
next
  case (Cons r rs)
  let ?n = "length (filter (\<lambda>r. groupKey r = gk) rs)"
  show ?case
  proof (cases "groupKey r = gk")
    case True
    have free: "\<forall>r'\<in>set rs. \<forall>i. idx + 1 \<le> i \<and> i < idx + 1 + ?n \<longrightarrow> sort' r' \<noteq> up + JQ * of_nat i"
      using Cons.prems(3) True by auto
    have IH: "distinct (map sort' (updateGroupSortFrom (idx + 1) rs gk up JQ))"
      using Cons.IH [OF _ Cons.prems(2) free] Cons.prems(1) by simp
    have "up + JQ * of_nat idx \<notin> sort' ` set (updateGroupSortFrom (idx + 1) rs gk up JQ)"
    proof
      assume "up + JQ * of_nat idx \<in> sort' ` set (updateGroupSortFrom (idx + 1) rs gk up JQ)"
      from updateGroupSortFrom_sorts [OF this]
      show False
      proof
        assume "\<exists>r\<in>set rs. groupKey r \<noteq> gk \<and> sort' r = up + JQ * of_nat idx"
        then show False using Cons.prems(3) True by auto
      next
        assume "\<exists>i\<ge>idx + 1. i < idx + 1 + ?n \<and> up + JQ * of_nat idx = up + JQ * of_nat i"
        then obtain i where "idx + 1 \<le> i" "JQ * of_nat idx = JQ * of_nat i" by auto
        then show False using Cons.prems(2) by simp
      qed
    qed
    then show ?thesis using IH True by simp
  next
    case False
    have free: "\<forall>r'\<in>set rs. \<forall>i. idx \<le> i \<and> i < idx + ?n \<longrightarrow> sort' r' \<noteq> up + JQ * of_nat i"
      using Cons.prems(3) False by auto
    have IH: "distinct (map sort' (updateGroupSortFrom idx rs gk up JQ))"
      using Cons.IH [OF _ Cons.prems(2) free] Cons.prems(1) by simp
    have "sort' r \<notin> sort' ` set (updateGroupSortFrom idx rs gk up JQ)"
    proof
      assume "sort' r \<in> sort' ` set (updateGroupSortFrom idx rs gk up JQ)"
      from updateGroupSortFrom_sorts [OF this]
      show False
      proof
        assume "\<exists>r'\<in>set rs. groupKey r' \<noteq> gk \<and> sort' r' = sort' r"
        then show False using Cons.prems(1) by (auto simp: image_iff)
      next
        assume "\<exists>i\<ge>idx. i < idx + ?n \<and> sort' r = up + JQ * of_nat i"
        then show False using Cons.prems(3) False by auto
      qed
    qed
    then show ?thesis using IH False by simp
  qed
qed

text \<open>The new keys of a group of \<open>n\<close> members lie strictly between the boundary keys.\<close>

lemma step_in_gap:
  fixes up down :: rat
  assumes "up < down" "1 \<le> i" "i \<le> n"
  shows "up < up + (down - up) / (of_nat n + 1) * of_nat i"
    "up + (down - up) / (of_nat n + 1) * of_nat i < down"
proof -
  let ?JQ = "(down - up) / (of_nat n + 1)"
  have n1: "(0::rat) < of_nat n + 1" by (simp add: add_pos_nonneg)
  have JQ: "0 < ?JQ" using assms(1) n1 by simp
  have i0: "(0::rat) < of_nat i" using assms(2) by simp
  show "up < up + ?JQ * of_nat i" using mult_pos_pos [OF JQ i0] by simp
  have "(of_nat i :: rat) < of_nat n + 1" using assms(3) by (simp add: add_strict_increasing2)
  then have "?JQ * of_nat i < ?JQ * (of_nat n + 1)" using JQ by (simp only: mult_less_cancel_left_pos)
  also have "?JQ * (of_nat n + 1) = down - up" using n1 by simp
  finally show "up + ?JQ * of_nat i < down" by simp
qed

lemma distinct_updateGroupSort:
  assumes dist: "distinct (map sort' d)" and lt: "up < down"
    and gap: "\<forall>r\<in>set d. sort' r \<le> up \<or> down \<le> sort' r"
    and n: "n = length (filter (\<lambda>r. groupKey r = gk) d)"
  shows "distinct (map sort' (updateGroupSort d gk up ((down - up) / (of_nat n + 1))))"
proof -
  let ?JQ = "(down - up) / (of_nat n + 1)"
  have n1: "(0::rat) < of_nat n + 1" by (simp add: add_pos_nonneg)
  have JQ: "0 < ?JQ" using lt n1 by simp
  have free: "\<forall>r\<in>set d. \<forall>i. 1 \<le> i \<and> i < 1 + length (filter (\<lambda>r. groupKey r = gk) d)
      \<longrightarrow> sort' r \<noteq> up + ?JQ * of_nat i"
  proof (intro ballI allI impI)
    fix r i
    assume r: "r \<in> set d" and i: "1 \<le> i \<and> i < 1 + length (filter (\<lambda>r. groupKey r = gk) d)"
    then have "1 \<le> i" "i \<le> n" using n by auto
    from step_in_gap [OF lt this] gap r show "sort' r \<noteq> up + ?JQ * of_nat i" by force
  qed
  show ?thesis unfolding updateGroupSort_def
    by (rule distinct_updateGroupSortFrom [OF dist JQ free])
qed

lemma distinct_updateRowSort_mid:
  fixes up down :: rat
  assumes "distinct (map key d)" "distinct (map sort' d)" "up < v" "v < down"
    and gap: "\<forall>r\<in>set d. sort' r \<le> up \<or> down \<le> sort' r"
  shows "distinct (map sort' (updateRowSort d k v))"
proof -
  have "v \<notin> sort' ` set d" using assms(3,4) gap by force
  then show ?thesis using assms(1,2) by (rule distinct_updateRowSort [rotated 2])
qed

text \<open>
  Claim C2. For a collection whose rows have distinct identifiers and distinct, positive
  order keys, and for every pair of identifiers, no two rows of the collection returned by
  \<open>computeNewSorts\<close> share an order key. (Order keys are rationals here. That the input is
  sorted, and that its groups are contiguous, is not needed.)
\<close>

theorem computeNewSorts_keys_unique:
  assumes ids: "distinct (map key d)" and dist: "distinct (map sort' d)"
    and pos: "\<forall>r\<in>set d. 0 < sort' r"
  shows "distinct (map sort' (computeNewSorts d a ov))"
proof (cases "getSortForId d a False = None \<or> getSortForId d ov False = None
           \<or> getSortForId d a False = getSortForId d ov False")
  case True
  then show ?thesis using computeNewSorts_unchanged dist by simp
next
  case False
  then obtain x y where x: "getSortForId d a False = Some x" and y: "getSortForId d ov False = Some y"
    and xy: "x \<noteq> y" by auto
  obtain z where z: "getSortForId d ov True = Some z" and yz: "y \<le> z"
    using getSortForId_end_resolves [OF y] by blast
  have yin: "\<exists>r\<in>set d. sort' r = y" using getSortForId_in [OF y] .
  let ?n = "length (filter (\<lambda>r. groupKey r = drop (length ''group:'') a) d)"
  note U = gap_up [OF pos yin]
  have ag: "startsWith a ''row:'' \<or> startsWith a ''group:''"
    using x by (auto simp: getSortForId_def split: if_splits)
  have m1: "u < u + (w - u) / 2 \<and> u + (w - u) / 2 < w" if "u < w" for u w :: rat
    using that by (simp add: field_simps)
  have m2: "u < (w - u) / 2 + u \<and> (w - u) / 2 + u < w" if "u < w" for u w :: rat
    using that by (simp add: field_simps)
  show ?thesis
  proof (cases "y < x")
    case True
    from ag show ?thesis
    proof
      assume r: "startsWith a ''row:''"
      show ?thesis
        unfolding computeNewSorts_row_up [OF r x y True]
        using distinct_updateRowSort_mid [OF ids dist _ _ U(3)] m2 [OF U(2)] by blast
    next
      assume g: "startsWith a ''group:''"
      show ?thesis
        unfolding computeNewSorts_group_up [OF g x y True]
        by (rule distinct_updateGroupSort [OF dist U(2) U(3) refl])
    qed
  next
    case False
    then have lt: "x < y" using xy by simp
    from ag show ?thesis
    proof
      assume r: "startsWith a ''row:''"
      have two: "(0::rat) < 2" by simp
      note D = gap_down [OF two, where z = z and d = d]
      show ?thesis
        unfolding computeNewSorts_row_down [OF r x y lt z]
        using distinct_updateRowSort_mid [OF ids dist _ _ D(2)] m1 [OF D(1)] by simp
    next
      assume g: "startsWith a ''group:''"
      have c: "(0::rat) < of_nat ?n + 1" by (simp add: add_pos_nonneg)
      note D = gap_down [OF c, where z = z and d = d]
      show ?thesis
        unfolding computeNewSorts_group_down [OF g x y lt z]
        using distinct_updateGroupSort [OF dist D(1) D(2) refl] by (simp add: add.assoc)
    qed
  qed
qed

theorem computeNewSorts_keys_unique_witness:
  "distinct (map key initialData) \<and> distinct (map sort' initialData) \<and>
   list_all (\<lambda>r. 0 < sort' r) initialData \<and>
   distinct (map sort' (computeNewSorts initialData ''group:group-B'' ''group:group-A'')) \<and>
   map sort' (computeNewSorts initialData ''group:group-B'' ''group:group-A'') = [1, 2, 3, 1 / 3, 2 / 3, 6]"
  using computeNewSorts_keys_unique [of initialData "''group:group-B''" "''group:group-A''"]
  by (simp add: seed_defs)


section \<open>Moving a group\<close>

lemma updateGroupSortFrom_group_sorts:
  "map sort' (filter (\<lambda>r. groupKey r = gk) (updateGroupSortFrom idx d gk up JQ))
     = map (\<lambda>i. up + JQ * of_nat i) [idx..<idx + length (filter (\<lambda>r. groupKey r = gk) d)]"
proof (induction d arbitrary: idx)
  case Nil
  then show ?case by simp
next
  case (Cons r rs)
  show ?case
  proof (cases "groupKey r = gk")
    case True
    have u: "[idx..<idx + Suc m] = idx # [idx + 1..<idx + 1 + m]" for m
      by (simp add: upt_conv_Cons)
    have "length (filter (\<lambda>r. groupKey r = gk) (r # rs))
        = Suc (length (filter (\<lambda>r. groupKey r = gk) rs))"
      using True by simp
    then have "[idx..<idx + length (filter (\<lambda>r. groupKey r = gk) (r # rs))]
        = idx # [idx + 1..<idx + 1 + length (filter (\<lambda>r. groupKey r = gk) rs)]"
      by (simp only: u)
    then show ?thesis using True Cons.IH [of "idx + 1"] by (simp del: upt_Suc)
  next
    case False
    then show ?thesis using Cons.IH [of idx] by simp
  qed
qed

lemma updateGroupSortFrom_group_keys:
  "map key (filter (\<lambda>r. groupKey r = gk) (updateGroupSortFrom idx d gk up JQ))
     = map key (filter (\<lambda>r. groupKey r = gk) d)"
  by (induction d arbitrary: idx) auto

lemma updateGroupSortFrom_others:
  "filter (\<lambda>r. groupKey r \<noteq> gk) (updateGroupSortFrom idx d gk up JQ)
     = filter (\<lambda>r. groupKey r \<noteq> gk) d"
  by (induction d arbitrary: idx) auto

lemma sorted_steps:
  fixes up JQ :: rat
  assumes "0 \<le> JQ"
  shows "sorted (map (\<lambda>i. up + JQ * of_nat i) [a..<b])"
proof -
  have "sorted_wrt (\<lambda>i j. up + JQ * of_nat i \<le> up + JQ * of_nat j) [a..<b]"
  proof (rule sorted_wrt_mono_rel [OF _ sorted_upt])
    fix i j :: nat
    assume "i \<le> j"
    then have "(of_nat i :: rat) \<le> of_nat j" by simp
    then have "JQ * of_nat i \<le> JQ * of_nat j" using assms by (rule mult_left_mono)
    then show "up + JQ * of_nat i \<le> up + JQ * of_nat j" by simp
  qed
  then show ?thesis by (simp only: sorted_map)
qed

lemma membersAscending_updateGroupSort:
  assumes "sorted (map sort' d)" "0 \<le> JQ"
  shows "membersAscending (updateGroupSort d gk up JQ) gk = membersAscending d gk"
proof -
  let ?P = "\<lambda>r. groupKey r = gk"
  let ?res = "updateGroupSort d gk up JQ"
  have "sorted (map sort' (filter ?P d))" using assms(1) by (rule sorted_filter)
  then have old: "sortBySort (filter ?P d) = filter ?P d"
    unfolding sortBySort_def by (rule sort_key_id_if_sorted)
  have "sorted (map sort' (filter ?P ?res))"
    unfolding updateGroupSort_def updateGroupSortFrom_group_sorts
    using assms(2) by (rule sorted_steps)
  then have new: "sortBySort (filter ?P ?res) = filter ?P ?res"
    unfolding sortBySort_def by (rule sort_key_id_if_sorted)
  show ?thesis
    unfolding membersAscending_def old new
    by (simp add: updateGroupSort_def updateGroupSortFrom_group_keys)
qed

text \<open>
  Claim C4, in exact arithmetic. Let the arithmetic on the order keys be exact, let the
  collection be sorted by order key, as \<open>computeNewSorts\<close> receives it, with positive
  keys, let the active identifier be the group \<open>gk\<close> of \<open>n\<close> members, and let the over
  identifier resolve to a different representative key. The boundary keys are: moving up,
  \<open>down\<close> is the first key of the target and \<open>up\<close> the largest key below it, or 0; moving
  down, \<open>up\<close> is the last key of the target and \<open>down\<close> the smallest key above it, or
  \<open>up + n + 1\<close>. Then \<open>up < down\<close>; the members of the group, in the order of the array,
  get the keys \<open>up + i * (down - up) / (n + 1)\<close> for \<open>i = 1, \<dots>, n\<close>; each of these lies
  strictly between \<open>up\<close> and \<open>down\<close>; the members listed by ascending new key are the
  members listed by ascending old key; and the rows of the other groups are returned as they
  are.
\<close>

theorem group_move_even_spacing:
  assumes srt: "sorted (map sort' d)" and pos: "\<forall>r\<in>set d. 0 < sort' r"
    and x: "getSortForId d (''group:'' @ gk) False = Some x"
    and y: "getSortForId d ov False = Some y" and xy: "x \<noteq> y"
    and n: "n = length (filter (\<lambda>r. groupKey r = gk) d)"
    and up: "up = (if y < x then orElse (findPrevSort d y) 0 else toNumber (getSortForId d ov True))"
    and down: "down = (if y < x then y else orElse (findNextSort d up) (up + of_nat n + 1))"
    and res: "res = computeNewSorts d (''group:'' @ gk) ov"
  shows "up < down \<and>
    map sort' (filter (\<lambda>r. groupKey r = gk) res)
      = map (\<lambda>i. up + of_nat i * (down - up) / (of_nat n + 1)) [1..<n + 1] \<and>
    (\<forall>i. 1 \<le> i \<and> i \<le> n \<longrightarrow>
       up < up + of_nat i * (down - up) / (of_nat n + 1) \<and>
       up + of_nat i * (down - up) / (of_nat n + 1) < down) \<and>
    membersAscending res gk = membersAscending d gk \<and>
    filter (\<lambda>r. groupKey r \<noteq> gk) res = filter (\<lambda>r. groupKey r \<noteq> gk) d"
proof -
  let ?JQ = "(down - up) / (of_nat n + 1)"
  have g: "startsWith (''group:'' @ gk) ''group:''" by (simp add: startsWith_def)
  have dk: "drop (length ''group:'') (''group:'' @ gk) = gk" by simp
  obtain z where z: "getSortForId d ov True = Some z"
    using getSortForId_end_resolves [OF y] by blast
  have yin: "\<exists>r\<in>set d. sort' r = y" using getSortForId_in [OF y] .
  have c: "(0::rat) < of_nat n + 1" by (simp add: add_pos_nonneg)
  have lt: "up < down" and eq: "res = updateGroupSort d gk up ?JQ"
  proof -
    show "up < down"
    proof (cases "y < x")
      case True
      then show ?thesis using gap_up(2) [OF pos yin] up down by simp
    next
      case False
      then show ?thesis using gap_down(1) [OF c, where z = z and d = d] up down z
        by (simp add: toNumber_def add.assoc)
    qed
    show "res = updateGroupSort d gk up ?JQ"
    proof (cases "y < x")
      case True
      then show ?thesis
        using computeNewSorts_group_up [OF g x y True] up down res n by (simp only: dk if_True)
    next
      case False
      then have "x < y" using xy by simp
      then show ?thesis
        using computeNewSorts_group_down [OF g x y _ z] up down res n z False
        by (simp only: dk if_False toNumber_def option.case)
    qed
  qed
  have JQ: "0 < ?JQ" using lt c by simp
  have f: "up + ?JQ * of_nat i = up + of_nat i * (down - up) / (of_nat n + 1)" for i :: nat
    by simp
  have "map sort' (filter (\<lambda>r. groupKey r = gk) res)
      = map (\<lambda>i. up + ?JQ * of_nat i) [1..<1 + n]"
    unfolding eq updateGroupSort_def updateGroupSortFrom_group_sorts n ..
  then have formula: "map sort' (filter (\<lambda>r. groupKey r = gk) res)
      = map (\<lambda>i. up + of_nat i * (down - up) / (of_nat n + 1)) [1..<n + 1]"
    by (simp only: f add.commute [of 1 n])
  have bounds: "\<forall>i. 1 \<le> i \<and> i \<le> n \<longrightarrow>
       up < up + of_nat i * (down - up) / (of_nat n + 1) \<and>
       up + of_nat i * (down - up) / (of_nat n + 1) < down"
    using step_in_gap [OF lt] by (simp only: f [symmetric]) blast
  have order: "membersAscending res gk = membersAscending d gk"
    unfolding eq using srt JQ by (intro membersAscending_updateGroupSort) simp_all
  have others: "filter (\<lambda>r. groupKey r \<noteq> gk) res = filter (\<lambda>r. groupKey r \<noteq> gk) d"
    unfolding eq updateGroupSort_def by (rule updateGroupSortFrom_others)
  show ?thesis using lt formula bounds order others by blast
qed

theorem group_move_even_spacing_witness:
  "sorted (map sort' initialData) \<and> list_all (\<lambda>r. 0 < sort' r) initialData \<and>
   getSortForId initialData ''group:group-A'' False = Some 1 \<and>
   getSortForId initialData ''group:group-B'' False = Some 4 \<and>
   getSortForId initialData ''group:group-B'' True = Some 5 \<and>
   findNextSort initialData 5 = Some 6 \<and>
   length (filter (\<lambda>r. groupKey r = ''group-A'') initialData) = 3 \<and>
   map sort' (filter (\<lambda>r. groupKey r = ''group-A'')
       (computeNewSorts initialData ''group:group-A'' ''group:group-B''))
     = [5 + 1 / 4, 5 + 2 / 4, 5 + 3 / 4] \<and>
   membersAscending (computeNewSorts initialData ''group:group-A'' ''group:group-B'') ''group-A''
     = [''1-1'', ''1-2'', ''1-3'']"
proof -
  have s: "sorted (map sort' initialData)" and p: "\<forall>r\<in>set initialData. 0 < sort' r"
    and pl: "list_all (\<lambda>r. 0 < sort' r) initialData"
    by (simp_all add: initialData_def)
  have x: "getSortForId initialData (''group:'' @ ''group-A'') False = Some 1"
    and y: "getSortForId initialData ''group:group-B'' False = Some 4"
    and z: "getSortForId initialData ''group:group-B'' True = Some 5"
    and nx: "findNextSort initialData 5 = Some 6"
    and n: "length (filter (\<lambda>r. groupKey r = ''group-A'') initialData) = 3"
    and m: "membersAscending initialData ''group-A'' = [''1-1'', ''1-2'', ''1-3'']"
    by (simp_all add: initialData_def getSortForId_def startsWith_def sortBySort_def
        findNextSort_def membersAscending_def)
  have up: "5 = (if (4::rat) < 1 then orElse (findPrevSort initialData 4) 0
      else toNumber (getSortForId initialData ''group:group-B'' True))"
    using z by (simp add: toNumber_def)
  have down: "6 = (if (4::rat) < 1 then 4 else orElse (findNextSort initialData 5) (5 + of_nat 3 + 1))"
    using nx by (simp add: orElse_def)
  have ne: "(1::rat) \<noteq> 4" by simp
  from group_move_even_spacing [OF s p x y ne n [symmetric] up down refl]
  show ?thesis using s pl x y z nx n m by (simp add: upt_rec)
qed

text \<open>
  Claim C4, as the specification states it, fails in double arithmetic: when the boundary
  keys are neighbouring doubles, no double lies strictly between them. On
  \<open>closeGroupsData\<close>, which is sorted, with the distinct positive doubles 1,
  \<open>1 + 1 / 2 ^ 52\<close>, 2 and 3 as keys and groups that are not interleaved, moving group \<open>B\<close>
  up onto group \<open>A\<close> has \<open>up = 1\<close> and \<open>down = 1 + 1 / 2 ^ 52\<close>; the two members of \<open>B\<close>
  get the keys 1 and \<open>1 + 1 / 2 ^ 52\<close>, the boundary keys themselves, where exact arithmetic
  gives \<open>1 + (1 / 3) / 2 ^ 52\<close> and \<open>1 + (2 / 3) / 2 ^ 52\<close>.
\<close>

theorem group_move_rounds_onto_bounds:
  "map sort' closeGroupsData = [1, 1 + 1 / 2 ^ 52, 2, 3] \<and>
   map roundDouble (map sort' closeGroupsData) = map sort' closeGroupsData \<and>
   sorted (map sort' closeGroupsData) \<and>
   nonInterleaved closeGroupsData \<and>
   getSortForId closeGroupsData ''group:B'' False = Some 2 \<and>
   getSortForId closeGroupsData ''group:A'' False = Some (1 + 1 / 2 ^ 52) \<and>
   findPrevSort closeGroupsData (1 + 1 / 2 ^ 52) = Some 1 \<and>
   map sort' (filter (\<lambda>r. groupKey r = ''B'')
       (computeNewSortsR roundDouble closeGroupsData ''group:B'' ''group:A''))
     = [1, 1 + 1 / 2 ^ 52] \<and>
   map sort' (filter (\<lambda>r. groupKey r = ''B'')
       (computeNewSorts closeGroupsData ''group:B'' ''group:A''))
     = [1 + (1 / 3) / 2 ^ 52, 1 + (2 / 3) / 2 ^ 52] \<and>
   \<not> 1 < sort' (computeNewSortsR roundDouble closeGroupsData ''group:B'' ''group:A'' ! 2) \<and>
   \<not> sort' (computeNewSortsR roundDouble closeGroupsData ''group:B'' ''group:A'' ! 3)
       < 1 + 1 / 2 ^ 52"
  by code_simp

section \<open>Groups that stay apart\<close>

lemma groupBelow_to_new:
  assumes rows: "\<And>r. r \<in> set res \<Longrightarrow> r \<in> set d \<or> (groupKey r = gM \<and> up < sort' r \<and> sort' r < down)"
    and h: "h \<noteq> gM"
    and low: "\<forall>r\<in>set d. groupKey r = h \<longrightarrow> sort' r \<le> up"
    and kept: "\<forall>r\<in>set d. \<forall>k\<in>set d. k \<in> set res \<and> groupKey r = h \<and> groupKey k = gM \<longrightarrow> sort' r < sort' k"
  shows "groupBelow res h gM"
  unfolding groupBelow_def
proof (intro ballI impI)
  fix a b
  assume a: "a \<in> set res" and b: "b \<in> set res" and g: "groupKey a = h \<and> groupKey b = gM"
  have ad: "a \<in> set d" using rows [OF a] g h by auto
  from rows [OF b] show "sort' a < sort' b"
  proof
    assume "b \<in> set d"
    then show ?thesis using kept ad b g by blast
  next
    assume "groupKey b = gM \<and> up < sort' b \<and> sort' b < down"
    then show ?thesis using low ad g by force
  qed
qed

lemma groupBelow_from_new:
  assumes rows: "\<And>r. r \<in> set res \<Longrightarrow> r \<in> set d \<or> (groupKey r = gM \<and> up < sort' r \<and> sort' r < down)"
    and h: "h \<noteq> gM"
    and high: "\<forall>r\<in>set d. groupKey r = h \<longrightarrow> down \<le> sort' r"
    and kept: "\<forall>r\<in>set d. \<forall>k\<in>set d. k \<in> set res \<and> groupKey r = h \<and> groupKey k = gM \<longrightarrow> sort' k < sort' r"
  shows "groupBelow res gM h"
  unfolding groupBelow_def
proof (intro ballI impI)
  fix a b
  assume a: "a \<in> set res" and b: "b \<in> set res" and g: "groupKey a = gM \<and> groupKey b = h"
  have bd: "b \<in> set d" using rows [OF b] g h by auto
  from rows [OF a] show "sort' a < sort' b"
  proof
    assume "a \<in> set d"
    then show ?thesis using kept bd a g by blast
  next
    assume "groupKey a = gM \<and> up < sort' a \<and> sort' a < down"
    then show ?thesis using high bd g by force
  qed
qed

lemma groupBelow_old:
  assumes rows: "\<And>r. r \<in> set res \<Longrightarrow> r \<in> set d \<or> (groupKey r = gM \<and> up < sort' r \<and> sort' r < down)"
    and "g \<noteq> gM" "h \<noteq> gM" "groupBelow d g h"
  shows "groupBelow res g h"
  using assms unfolding groupBelow_def by blast

lemma nonInterleaved_move:
  assumes ni: "nonInterleaved d"
    and rows: "\<And>r. r \<in> set res \<Longrightarrow> r \<in> set d \<or> (groupKey r = gM \<and> up < sort' r \<and> sort' r < down)"
    and side: "\<And>h. h \<noteq> gM \<Longrightarrow> h \<in> groupKey ` set d \<Longrightarrow>
        ((\<forall>r\<in>set d. groupKey r = h \<longrightarrow> sort' r \<le> up) \<and>
         (\<forall>r\<in>set d. \<forall>k\<in>set d. k \<in> set res \<and> groupKey r = h \<and> groupKey k = gM \<longrightarrow> sort' r < sort' k))
      \<or> ((\<forall>r\<in>set d. groupKey r = h \<longrightarrow> down \<le> sort' r) \<and>
         (\<forall>r\<in>set d. \<forall>k\<in>set d. k \<in> set res \<and> groupKey r = h \<and> groupKey k = gM \<longrightarrow> sort' k < sort' r))"
  shows "nonInterleaved res"
  unfolding nonInterleaved_def
proof (intro ballI impI)
  fix a b
  assume a: "a \<in> set res" and b: "b \<in> set res" and ne: "groupKey a \<noteq> groupKey b"
  have new: "groupBelow res h gM \<or> groupBelow res gM h" if "h \<noteq> gM" "h \<in> groupKey ` set d" for h
    using side [OF that] groupBelow_to_new [OF rows that(1)] groupBelow_from_new [OF rows that(1)]
    by blast
  have old: "r \<in> set d" if "r \<in> set res" "groupKey r \<noteq> gM" for r
    using rows [OF that(1)] that(2) by blast
  show "groupBelow res (groupKey a) (groupKey b) \<or> groupBelow res (groupKey b) (groupKey a)"
  proof (cases "groupKey a = gM")
    case True
    then have "groupKey b \<noteq> gM" using ne by simp
    then show ?thesis using new [of "groupKey b"] old [OF b] True by auto
  next
    case False
    note na = this
    show ?thesis
    proof (cases "groupKey b = gM")
      case True
      then show ?thesis using new [of "groupKey a"] old [OF a] na by auto
    next
      case False
      have "a \<in> set d" "b \<in> set d" using old a b na False by auto
      then have "groupBelow d (groupKey a) (groupKey b) \<or> groupBelow d (groupKey b) (groupKey a)"
        using ni ne unfolding nonInterleaved_def by blast
      then show ?thesis using groupBelow_old [OF rows] na False by blast
    qed
  qed
qed

lemma updateGroupSortFrom_rows:
  assumes "r \<in> set (updateGroupSortFrom idx d gk up JQ)"
  shows "(r \<in> set d \<and> groupKey r \<noteq> gk)
     \<or> (groupKey r = gk \<and>
         (\<exists>i. idx \<le> i \<and> i < idx + length (filter (\<lambda>r. groupKey r = gk) d) \<and> sort' r = up + JQ * of_nat i))"
  using assms
proof (induction d arbitrary: idx)
  case Nil
  then show ?case by simp
next
  case (Cons r0 rs)
  show ?case
  proof (cases "groupKey r0 = gk")
    case True
    then consider "r = r0\<lparr>sort' := up + JQ * of_nat idx\<rparr>"
      | "r \<in> set (updateGroupSortFrom (idx + 1) rs gk up JQ)"
      using Cons.prems by auto
    then show ?thesis
    proof cases
      case 1
      have "idx \<le> idx \<and> idx < idx + length (filter (\<lambda>r. groupKey r = gk) (r0 # rs))
          \<and> sort' r = up + JQ * of_nat idx" using 1 True by simp
      then show ?thesis using 1 True by auto
    next
      case 2
      from Cons.IH [OF 2] show ?thesis
      proof
        assume "r \<in> set rs \<and> groupKey r \<noteq> gk"
        then show ?thesis by simp
      next
        assume "groupKey r = gk \<and>
          (\<exists>i\<ge>idx + 1. i < idx + 1 + length (filter (\<lambda>r. groupKey r = gk) rs) \<and> sort' r = up + JQ * of_nat i)"
        then obtain i where g: "groupKey r = gk" and "idx + 1 \<le> i"
          "i < idx + 1 + length (filter (\<lambda>r. groupKey r = gk) rs)" "sort' r = up + JQ * of_nat i"
          by blast
        then have "idx \<le> i \<and> i < idx + length (filter (\<lambda>r. groupKey r = gk) (r0 # rs))
            \<and> sort' r = up + JQ * of_nat i"
          using True by simp
        then show ?thesis using g by blast
      qed
    qed
  next
    case False
    then consider "r = r0" | "r \<in> set (updateGroupSortFrom idx rs gk up JQ)"
      using Cons.prems by auto
    then show ?thesis
    proof cases
      case 1
      then show ?thesis using False by simp
    next
      case 2
      from Cons.IH [OF 2] show ?thesis using False by auto
    qed
  qed
qed

lemma nonInterleaved_updateGroupSort:
  assumes ni: "nonInterleaved d" and lt: "up < down"
    and gap: "\<forall>r\<in>set d. sort' r \<le> up \<or> down \<le> sort' r"
    and n: "n = length (filter (\<lambda>r. groupKey r = gk) d)"
    and side: "\<And>h. h \<noteq> gk \<Longrightarrow> h \<in> groupKey ` set d \<Longrightarrow>
        (\<forall>r\<in>set d. groupKey r = h \<longrightarrow> sort' r \<le> up) \<or> (\<forall>r\<in>set d. groupKey r = h \<longrightarrow> down \<le> sort' r)"
  shows "nonInterleaved (updateGroupSort d gk up ((down - up) / (of_nat n + 1)))"
proof (rule nonInterleaved_move [OF ni, where gM = gk and up = up and down = down])
  let ?JQ = "(down - up) / (of_nat n + 1)"
  let ?res = "updateGroupSort d gk up ?JQ"
  have new: "up < sort' r \<and> sort' r < down" if "r \<in> set ?res" "groupKey r = gk" for r
  proof -
    from updateGroupSortFrom_rows [OF that(1) [unfolded updateGroupSort_def]] that(2)
    obtain i where "1 \<le> i" "i < 1 + n" "sort' r = up + ?JQ * of_nat i"
      using n by auto
    then show ?thesis using step_in_gap [OF lt, of i n] by simp
  qed
  show "r \<in> set d \<or> (groupKey r = gk \<and> up < sort' r \<and> sort' r < down)" if "r \<in> set ?res" for r
    using updateGroupSortFrom_rows [OF that [unfolded updateGroupSort_def]] new [OF that] by blast
  have none: "\<not> (k \<in> set d \<and> k \<in> set ?res \<and> groupKey k = gk)" for k
    using new [of k] gap by force
  show "((\<forall>r\<in>set d. groupKey r = h \<longrightarrow> sort' r \<le> up) \<and>
         (\<forall>r\<in>set d. \<forall>k\<in>set d. k \<in> set ?res \<and> groupKey r = h \<and> groupKey k = gk \<longrightarrow> sort' r < sort' k))
      \<or> ((\<forall>r\<in>set d. groupKey r = h \<longrightarrow> down \<le> sort' r) \<and>
         (\<forall>r\<in>set d. \<forall>k\<in>set d. k \<in> set ?res \<and> groupKey r = h \<and> groupKey k = gk \<longrightarrow> sort' k < sort' r))"
    if "h \<noteq> gk" "h \<in> groupKey ` set d" for h
    using side [OF that] none by blast
qed

lemma updateRowSort_rows:
  assumes ids: "distinct (map key d)" and R: "R \<in> set d" "key R = k"
    and r: "r \<in> set (updateRowSort d k v)"
  shows "(r \<in> set d \<and> r \<noteq> R) \<or> r = R\<lparr>sort' := v\<rparr>"
proof -
  from r obtain r0 where r0: "r0 \<in> set d" "r = (if key r0 = k then r0\<lparr>sort' := v\<rparr> else r0)"
    by (auto simp: updateRowSort_def)
  show ?thesis
  proof (cases "key r0 = k")
    case True
    have "inj_on key (set d)" using ids by (simp add: distinct_map)
    then have "r0 = R" using r0(1) R True by (auto dest: inj_onD)
    then show ?thesis using r0(2) True by simp
  next
    case False
    then show ?thesis using r0 R by auto
  qed
qed

lemma nonInterleaved_updateRowSort:
  assumes ni: "nonInterleaved d" and ids: "distinct (map key d)" and R: "R \<in> set d" "key R = k"
    and v: "up < v" "v < down"
    and side: "\<And>h. h \<noteq> groupKey R \<Longrightarrow> h \<in> groupKey ` set d \<Longrightarrow>
        ((\<forall>r\<in>set d. groupKey r = h \<longrightarrow> sort' r \<le> up) \<and> groupBelow d h (groupKey R))
      \<or> ((\<forall>r\<in>set d. groupKey r = h \<longrightarrow> down \<le> sort' r) \<and> groupBelow d (groupKey R) h)"
  shows "nonInterleaved (updateRowSort d k v)"
proof (rule nonInterleaved_move [OF ni, where gM = "groupKey R" and up = up and down = down])
  let ?res = "updateRowSort d k v"
  show "r \<in> set d \<or> (groupKey r = groupKey R \<and> up < sort' r \<and> sort' r < down)" if "r \<in> set ?res" for r
    using updateRowSort_rows [OF ids R that] v by auto
  show "((\<forall>r\<in>set d. groupKey r = h \<longrightarrow> sort' r \<le> up) \<and>
         (\<forall>r\<in>set d. \<forall>k\<in>set d. k \<in> set ?res \<and> groupKey r = h \<and> groupKey k = groupKey R \<longrightarrow> sort' r < sort' k))
      \<or> ((\<forall>r\<in>set d. groupKey r = h \<longrightarrow> down \<le> sort' r) \<and>
         (\<forall>r\<in>set d. \<forall>k\<in>set d. k \<in> set ?res \<and> groupKey r = h \<and> groupKey k = groupKey R \<longrightarrow> sort' k < sort' r))"
    if "h \<noteq> groupKey R" "h \<in> groupKey ` set d" for h
    using side [OF that] unfolding groupBelow_def by blast
qed


lemma pivot_sides:
  assumes ni: "nonInterleaved d" and Pv: "Pv \<in> set d"
    and h: "h \<noteq> groupKey Pv" "h \<in> groupKey ` set d"
  shows "((\<forall>r\<in>set d. groupKey r = h \<longrightarrow> sort' r < sort' Pv) \<and> groupBelow d h (groupKey Pv))
    \<or> ((\<forall>r\<in>set d. groupKey r = h \<longrightarrow> sort' Pv < sort' r) \<and> groupBelow d (groupKey Pv) h)"
proof -
  from h(2) obtain r0 where r0: "r0 \<in> set d" "groupKey r0 = h" by auto
  then have "groupBelow d h (groupKey Pv) \<or> groupBelow d (groupKey Pv) h"
    using ni Pv h(1) unfolding nonInterleaved_def by blast
  then show ?thesis
  proof
    assume b: "groupBelow d h (groupKey Pv)"
    then have "\<forall>r\<in>set d. groupKey r = h \<longrightarrow> sort' r < sort' Pv"
      using Pv unfolding groupBelow_def by blast
    then show ?thesis using b by blast
  next
    assume b: "groupBelow d (groupKey Pv) h"
    then have "\<forall>r\<in>set d. groupKey r = h \<longrightarrow> sort' Pv < sort' r"
      using Pv unfolding groupBelow_def by blast
    then show ?thesis using b by blast
  qed
qed

lemma side_up:
  assumes ni: "nonInterleaved d" and pos: "\<forall>r\<in>set d. 0 < sort' r" and Pv: "Pv \<in> set d"
    and h: "h \<noteq> groupKey Pv" "h \<in> groupKey ` set d"
  shows "((\<forall>r\<in>set d. groupKey r = h \<longrightarrow> sort' r \<le> orElse (findPrevSort d (sort' Pv)) 0)
           \<and> groupBelow d h (groupKey Pv))
    \<or> ((\<forall>r\<in>set d. groupKey r = h \<longrightarrow> sort' Pv \<le> sort' r) \<and> groupBelow d (groupKey Pv) h)"
proof -
  have "\<exists>r\<in>set d. sort' r = sort' Pv" using Pv by blast
  from gap_up(3) [OF pos this]
  have "\<forall>r\<in>set d. sort' r < sort' Pv \<longrightarrow> sort' r \<le> orElse (findPrevSort d (sort' Pv)) 0"
    by force
  then show ?thesis using pivot_sides [OF ni Pv h] by (metis less_imp_le)
qed

lemma side_down:
  assumes ni: "nonInterleaved d" and c: "0 < c" and Pv: "Pv \<in> set d"
    and h: "h \<noteq> groupKey Pv" "h \<in> groupKey ` set d"
  shows "((\<forall>r\<in>set d. groupKey r = h \<longrightarrow> sort' r \<le> sort' Pv) \<and> groupBelow d h (groupKey Pv))
    \<or> ((\<forall>r\<in>set d. groupKey r = h \<longrightarrow> orElse (findNextSort d (sort' Pv)) (sort' Pv + c) \<le> sort' r)
           \<and> groupBelow d (groupKey Pv) h)"
proof -
  from gap_down(2) [OF c, where z = "sort' Pv" and d = d]
  have "\<forall>r\<in>set d. sort' Pv < sort' r \<longrightarrow> orElse (findNextSort d (sort' Pv)) (sort' Pv + c) \<le> sort' r"
    by force
  then show ?thesis using pivot_sides [OF ni Pv h] by (metis less_imp_le)
qed

lemma nonInterleaved_group_onto_group:
  assumes ni: "nonInterleaved d" and pos: "\<forall>r\<in>set d. 0 < sort' r"
    and a: "startsWith a ''group:''" and ov: "startsWith ov ''group:''"
  shows "nonInterleaved (computeNewSorts d a ov)"
proof (cases "getSortForId d a False = None \<or> getSortForId d ov False = None
           \<or> getSortForId d a False = getSortForId d ov False")
  case True
  then show ?thesis using computeNewSorts_unchanged ni by simp
next
  case False
  then obtain x y where x: "getSortForId d a False = Some x" and y: "getSortForId d ov False = Some y"
    and xy: "x \<noteq> y" by auto
  obtain z where z: "getSortForId d ov True = Some z"
    using getSortForId_end_resolves [OF y] by blast
  let ?gk = "drop (length ''group:'') a"
  let ?hk = "drop (length ''group:'') ov"
  let ?n = "length (filter (\<lambda>r. groupKey r = ?gk) d)"
  obtain Py where Py: "Py \<in> set d" "groupKey Py = ?hk" "sort' Py = y"
    using getSortForId_group_first(1) [OF ov y] by blast
  have ymin: "\<forall>r\<in>set d. groupKey r = ?hk \<longrightarrow> y \<le> sort' r"
    using getSortForId_group_first(2) [OF ov y] .
  obtain Pz where Pz: "Pz \<in> set d" "groupKey Pz = ?hk" "sort' Pz = z"
    using getSortForId_group_last(1) [OF ov z] by blast
  have zmax: "\<forall>r\<in>set d. groupKey r = ?hk \<longrightarrow> sort' r \<le> z"
    using getSortForId_group_last(2) [OF ov z] .
  have yin: "\<exists>r\<in>set d. sort' r = y" using Py by blast
  show ?thesis
  proof (cases "y < x")
    case True
    note U = gap_up [OF pos yin]
    have side: "(\<forall>r\<in>set d. groupKey r = h \<longrightarrow> sort' r \<le> orElse (findPrevSort d y) 0)
        \<or> (\<forall>r\<in>set d. groupKey r = h \<longrightarrow> y \<le> sort' r)"
      if "h \<noteq> ?gk" "h \<in> groupKey ` set d" for h
    proof (cases "h = ?hk")
      case True
      then show ?thesis using ymin by simp
    next
      case False
      then show ?thesis using side_up [OF ni pos Py(1), of h] that(2) Py(2,3) by auto
    qed
    show ?thesis
      unfolding computeNewSorts_group_up [OF a x y True]
      by (rule nonInterleaved_updateGroupSort [OF ni U(2) U(3) refl side])
  next
    case False
    then have lt: "x < y" using xy by simp
    have c: "(0::rat) < of_nat ?n + 1" by (simp add: add_pos_nonneg)
    note D = gap_down [OF c, where z = z and d = d]
    have side: "(\<forall>r\<in>set d. groupKey r = h \<longrightarrow> sort' r \<le> z)
        \<or> (\<forall>r\<in>set d. groupKey r = h \<longrightarrow> orElse (findNextSort d z) (z + (of_nat ?n + 1)) \<le> sort' r)"
      if "h \<noteq> ?gk" "h \<in> groupKey ` set d" for h
    proof (cases "h = ?hk")
      case True
      then show ?thesis using zmax by simp
    next
      case False
      then show ?thesis using side_down [OF ni c Pz(1), of h] that(2) Pz(2,3) by auto
    qed
    have "nonInterleaved (updateGroupSort d ?gk z
        ((orElse (findNextSort d z) (z + (of_nat ?n + 1)) - z) / (of_nat ?n + 1)))"
      by (rule nonInterleaved_updateGroupSort [OF ni D(1) D(2) refl side])
    then show ?thesis
      unfolding computeNewSorts_group_down [OF a x y lt z] by (simp add: add.assoc)
  qed
qed

lemma nonInterleaved_row_within_group:
  assumes ni: "nonInterleaved d" and pos: "\<forall>r\<in>set d. 0 < sort' r" and ids: "distinct (map key d)"
    and a: "startsWith a ''row:''" and ov: "startsWith ov ''row:''"
    and R: "find (\<lambda>x. key x = drop (length ''row:'') a) d = Some R"
    and T: "find (\<lambda>x. key x = drop (length ''row:'') ov) d = Some T"
    and same: "groupKey R = groupKey T"
  shows "nonInterleaved (computeNewSorts d a ov)"
proof -
  let ?k = "drop (length ''row:'') a"
  have x: "getSortForId d a False = Some (sort' R)"
    and y: "getSortForId d ov b = Some (sort' T)" for b
    using R T by (simp_all only: getSortForId_row [OF a] getSortForId_row [OF ov] option.map)
  have Rin: "R \<in> set d" "key R = ?k" using R by (auto simp: find_Some_iff)
  have Tin: "T \<in> set d" using T by (auto simp: find_Some_iff)
  have yin: "\<exists>r\<in>set d. sort' r = sort' T" using Tin by blast
  have m1: "u < u + (w - u) / 2 \<and> u + (w - u) / 2 < w" if "u < w" for u w :: rat
    using that by (simp add: field_simps)
  have m2: "u < (w - u) / 2 + u \<and> (w - u) / 2 + u < w" if "u < w" for u w :: rat
    using that by (simp add: field_simps)
  consider "sort' R = sort' T" | "sort' T < sort' R" | "sort' R < sort' T" by linarith
  then show ?thesis
  proof cases
    case 1
    then show ?thesis using computeNewSorts_unchanged [of d a ov] x y ni by simp
  next
    case 2
    note U = gap_up [OF pos yin]
    note M = m2 [OF U(2)]
    show ?thesis
      unfolding computeNewSorts_row_up [OF a x y 2]
      by (rule nonInterleaved_updateRowSort [OF ni ids Rin conjunct1 [OF M] conjunct2 [OF M]])
        (use side_up [OF ni pos Tin] same in auto)
  next
    case 3
    have two: "(0::rat) < 2" by simp
    note D = gap_down [OF two, where z = "sort' T" and d = d]
    note M = m1 [OF D(1)]
    show ?thesis
      unfolding computeNewSorts_row_down [OF a x y 3 y]
      by (rule nonInterleaved_updateRowSort [OF ni ids Rin conjunct1 [OF M] conjunct2 [OF M]])
        (use side_down [OF ni two Tin] same in auto)
  qed
qed

text \<open>
  Claim C1, in exact arithmetic and for the moves that keep it. Let the arithmetic on the
  order keys be exact. For a collection whose rows have distinct identifiers and positive
  order keys and whose groups are not interleaved, the collection returned by
  \<open>computeNewSorts\<close> again has groups that are not interleaved, when the active and the over
  identifier are both group identifiers, or are the identifiers of two rows of the same
  group. (Uniqueness of the order keys is not needed for this.)
\<close>

theorem computeNewSorts_keeps_groups_apart:
  assumes ni: "nonInterleaved d" and pos: "\<forall>r\<in>set d. 0 < sort' r" and ids: "distinct (map key d)"
    and kind: "(startsWith a ''group:'' \<and> startsWith ov ''group:'')
      \<or> (startsWith a ''row:'' \<and> startsWith ov ''row:'' \<and>
          find (\<lambda>x. key x = drop (length ''row:'') a) d = Some R \<and>
          find (\<lambda>x. key x = drop (length ''row:'') ov) d = Some T \<and>
          groupKey R = groupKey T)"
  shows "nonInterleaved (computeNewSorts d a ov)"
  using kind nonInterleaved_group_onto_group [OF ni pos]
    nonInterleaved_row_within_group [OF ni pos ids] by blast

theorem computeNewSorts_keeps_groups_apart_witness:
  "nonInterleaved initialData \<and> list_all (\<lambda>r. 0 < sort' r) initialData \<and>
   distinct (map key initialData) \<and>
   startsWith ''group:group-B'' ''group:'' \<and> startsWith ''group:group-A'' ''group:'' \<and>
   nonInterleaved (computeNewSorts initialData ''group:group-B'' ''group:group-A'') \<and>
   startsWith ''row:1-3'' ''row:'' \<and> startsWith ''row:1-1'' ''row:'' \<and>
   find (\<lambda>x. key x = drop (length ''row:'') ''row:1-3'') initialData = Some (initialData ! 2) \<and>
   find (\<lambda>x. key x = drop (length ''row:'') ''row:1-1'') initialData = Some (initialData ! 0) \<and>
   groupKey (initialData ! 2) = groupKey (initialData ! 0) \<and>
   nonInterleaved (computeNewSorts initialData ''row:1-3'' ''row:1-1'')"
proof -
  have ni: "nonInterleaved initialData"
    by (simp add: nonInterleaved_def groupBelow_def initialData_def)
  have pos: "\<forall>r\<in>set initialData. 0 < sort' r" and ids: "distinct (map key initialData)"
    and posl: "list_all (\<lambda>r. 0 < sort' r) initialData"
    by (simp_all add: initialData_def)
  have g: "startsWith ''group:group-B'' ''group:'' \<and> startsWith ''group:group-A'' ''group:''"
    by (simp add: startsWith_def)
  have r: "startsWith ''row:1-3'' ''row:'' \<and> startsWith ''row:1-1'' ''row:'' \<and>
     find (\<lambda>x. key x = drop (length ''row:'') ''row:1-3'') initialData = Some (initialData ! 2) \<and>
     find (\<lambda>x. key x = drop (length ''row:'') ''row:1-1'') initialData = Some (initialData ! 0) \<and>
     groupKey (initialData ! 2) = groupKey (initialData ! 0)"
    by (simp add: startsWith_def initialData_def)
  show ?thesis
    using computeNewSorts_keeps_groups_apart [OF ni pos ids disjI1 [OF g]]
      computeNewSorts_keeps_groups_apart [OF ni pos ids disjI2 [OF r]]
      ni posl ids g r
    by blast
qed

text \<open>
  Claim C1, as the specification states it, fails: a single row moved into the interior of
  another group keeps its \<open>groupKey\<close>, so its group then reaches into the other one. On
  the seed collection, whose keys 1 to 6 are distinct and positive and whose groups are not
  interleaved, moving \<open>row:1-2\<close> onto \<open>row:2-1\<close> leaves \<open>group-A\<close> with the keys 1, 9/2
  and 3, around the key 4 of \<open>group-B\<close>.
\<close>

theorem row_into_other_group_interleaves:
  "map sort' initialData = [1, 2, 3, 4, 5, 6] \<and>
   nonInterleaved initialData \<and>
   getSortForId initialData ''row:1-2'' False = Some 2 \<and>
   getSortForId initialData ''row:2-1'' False = Some 4 \<and>
   map sort' (computeNewSorts initialData ''row:1-2'' ''row:2-1'') = [1, 9 / 2, 3, 4, 5, 6] \<and>
   map groupKey (computeNewSorts initialData ''row:1-2'' ''row:2-1'')
     = [''group-A'', ''group-A'', ''group-A'', ''group-B'', ''group-B'', ''group-C''] \<and>
   \<not> nonInterleaved (computeNewSorts initialData ''row:1-2'' ''row:2-1'')"
  by (simp add: seed_defs nonInterleaved_def groupBelow_def)


text \<open>
  In double arithmetic the groups can also run into each other on a move of a group onto a
  group: on \<open>closeGroupsData\<close> the members of \<open>B\<close>, moved onto \<open>A\<close>, get the key of \<open>Z\<close>
  and the key of \<open>A\<close>, so \<open>B\<close> is neither below nor above these groups.
\<close>

lemma group_move_in_doubles_interleaves:
  "nonInterleaved closeGroupsData \<and>
   map groupKey (computeNewSortsR roundDouble closeGroupsData ''group:B'' ''group:A'')
     = [''Z'', ''A'', ''B'', ''B''] \<and>
   map sort' (computeNewSortsR roundDouble closeGroupsData ''group:B'' ''group:A'')
     = [1, 1 + 1 / 2 ^ 52, 1, 1 + 1 / 2 ^ 52] \<and>
   \<not> nonInterleaved (computeNewSortsR roundDouble closeGroupsData ''group:B'' ''group:A'')"
  by code_simp

section \<open>Group sizes after a move\<close>

subsection \<open>The groups that \<open>buildGroups\<close> finds\<close>

lemma map_of_groupPush:
  "map_of (groupPush m r)
     = (map_of m)(groupKey r \<mapsto> (case map_of m (groupKey r) of None \<Rightarrow> [] | Some rows \<Rightarrow> rows) @ [r])"
  by (auto simp: groupPush_def Let_def update_conv' split: option.splits)

lemma distinct_groupPush:
  "distinct (map fst m) \<Longrightarrow> distinct (map fst (groupPush m r))"
  by (auto simp: groupPush_def Let_def distinct_update split: option.splits)

lemma foldl_groupPush:
  "distinct (map fst (foldl groupPush [] d)) \<and>
   map_of (foldl groupPush [] d)
     = (\<lambda>g. if g \<in> groupKey ` set d then Some (filter (\<lambda>r. groupKey r = g) d) else None)"
proof (induction d rule: rev_induct)
  case Nil
  then show ?case by auto
next
  case (snoc r rs)
  let ?m = "foldl groupPush [] rs"
  have d: "distinct (map fst (groupPush ?m r))" using snoc by (simp add: distinct_groupPush)
  have "map_of (groupPush ?m r) g
      = (if g \<in> groupKey ` set (rs @ [r]) then Some (filter (\<lambda>r. groupKey r = g) (rs @ [r])) else None)"
    for g
  proof -
    have e: "filter (\<lambda>x. groupKey x = groupKey r) rs = []" if "groupKey r \<notin> groupKey ` set rs"
      unfolding filter_empty_conv using that by (metis imageI)
    show ?thesis using snoc e by (auto simp: map_of_groupPush)
  qed
  then show ?case using d by auto
qed

lemma buildGroups_eq:
  "\<exists>gs. distinct gs \<and> set gs = groupKey ` set d \<and>
     buildGroups d = map (\<lambda>g. (g, sortBySort (filter (\<lambda>r. groupKey r = g) d))) gs"
proof -
  let ?m = "foldl groupPush [] d"
  let ?F = "\<lambda>g. filter (\<lambda>r. groupKey r = g) d"
  have dist: "distinct (map fst ?m)" and mo: "map_of ?m = (\<lambda>g. if g \<in> groupKey ` set d then Some (?F g) else None)"
    using foldl_groupPush [of d] by auto
  have mem: "snd p = ?F (fst p)" if "p \<in> set ?m" for p
  proof -
    have "map_of ?m (fst p) = Some (snd p)" using dist that by simp
    then show ?thesis unfolding mo by (auto split: if_splits)
  qed
  have "set (map fst ?m) = dom (map_of ?m)" by (simp add: dom_map_of_conv_image_fst)
  also have "\<dots> = groupKey ` set d" unfolding mo by (auto split: if_splits)
  finally have keys: "set (map fst ?m) = groupKey ` set d" .
  have "map (\<lambda>(gk, rows). (gk, sortBySort rows)) ?m = map (\<lambda>g. (g, sortBySort (?F g))) (map fst ?m)"
    using mem by (auto simp: case_prod_beta)
  then show ?thesis using dist keys unfolding buildGroups_def by blast
qed

subsection \<open>The sizes written into one group\<close>

lemma sized_tail:
  "0 < n \<Longrightarrow> map (\<lambda>(idx, r). r\<lparr>groupSize := Some (if idx = 0 then s else 0)\<rparr>) (enumerate n t)
     = map (\<lambda>r. r\<lparr>groupSize := Some 0\<rparr>) t"
  by (induction t arbitrary: n) auto

lemma sized_rows:
  "map (\<lambda>(idx, r). r\<lparr>groupSize := Some (if idx = 0 then s else 0)\<rparr>) (enumerate 0 (h # t))
     = h\<lparr>groupSize := Some s\<rparr> # map (\<lambda>r. r\<lparr>groupSize := Some (0::nat)\<rparr>) t"
  using sized_tail [of "Suc 0" s t] by simp

lemma header_is_first:
  assumes dist: "distinct (map sort' d)"
    and r: "r \<in> set d" "groupKey r = g"
  shows "isHeader d r \<longleftrightarrow> r = hd (sortBySort (filter (\<lambda>r. groupKey r = g) d))"
proof -
  let ?f = "filter (\<lambda>r. groupKey r = g) d"
  let ?h = "hd (sortBySort ?f)"
  have ne: "?f \<noteq> []" using r by (auto simp: filter_empty_conv)
  have h: "?h \<in> set d" "groupKey ?h = g" using sortBySort_hd_in [OF ne] by auto
  have hmin: "\<forall>x\<in>set d. groupKey x = g \<longrightarrow> sort' ?h \<le> sort' x"
    using sortBySort_hd_min [of _ ?f] by auto
  have inj: "inj_on sort' (set d)" using dist by (simp add: distinct_map)
  show ?thesis
  proof
    assume "isHeader d r"
    then have "sort' r \<le> sort' ?h" using h r unfolding isHeader_def by auto
    moreover have "sort' ?h \<le> sort' r" using hmin r by auto
    ultimately show "r = ?h" using inj r(1) h(1) by (auto dest: inj_onD)
  next
    assume "r = ?h"
    then show "isHeader d r" using hmin h unfolding isHeader_def by auto
  qed
qed

lemma sized_group:
  assumes dist: "distinct (map sort' d)" and g: "g \<in> groupKey ` set d"
  shows "(let rows = sortBySort (filter (\<lambda>r. groupKey r = g) d); size = length rows
          in map (\<lambda>(idx, r). r\<lparr>groupSize := Some (if idx = 0 then size else 0)\<rparr>) (enumerate 0 rows))
     = map (withGroupSize d) (sortBySort (filter (\<lambda>r. groupKey r = g) d))"
proof -
  let ?f = "filter (\<lambda>r. groupKey r = g) d"
  have ne: "sortBySort ?f \<noteq> []" using g by (auto simp: filter_empty_conv)
  then obtain h t where ht: "sortBySort ?f = h # t" by (cases "sortBySort ?f") auto
  have dd: "distinct d" using dist by (rule distinct_map [THEN iffD1, THEN conjunct1])
  have "distinct (sortBySort ?f)" using dd by (simp add: sortBySort_def)
  then have hnt: "h \<notin> set t" using ht by simp
  have sub: "set (h # t) = set ?f" using ht sortBySort_set [of ?f] by simp
  have hd: "hd (sortBySort ?f) = h" using ht by simp
  have card: "groupCard d g = length (h # t)"
    using ht sortBySort_length [of ?f] by (simp add: groupCard_def)
  have Wh: "withGroupSize d h = h\<lparr>groupSize := Some (length (h # t))\<rparr>"
  proof -
    have "h \<in> set d" "groupKey h = g" using sub by auto
    then show ?thesis using header_is_first [OF dist, of h g] hd card
      by (simp add: withGroupSize_def)
  qed
  have Wt: "withGroupSize d r = r\<lparr>groupSize := Some 0\<rparr>" if "r \<in> set t" for r
  proof -
    have "r \<in> set d" "groupKey r = g" using sub that by auto
    moreover have "r \<noteq> h" using that hnt by auto
    ultimately show ?thesis using header_is_first [OF dist, of r g] hd
      by (simp add: withGroupSize_def)
  qed
  have "map (withGroupSize d) (h # t) = h\<lparr>groupSize := Some (length (h # t))\<rparr> # map (\<lambda>r. r\<lparr>groupSize := Some 0\<rparr>) t"
    using Wh Wt by simp
  then show ?thesis unfolding Let_def ht sized_rows by simp
qed


subsection \<open>All groups together\<close>

lemma filter_disjoint_mset:
  "(\<And>x. x \<in> set xs \<Longrightarrow> \<not> (P x \<and> Q x)) \<Longrightarrow>
     mset (filter P xs) + mset (filter Q xs) = mset (filter (\<lambda>x. P x \<or> Q x) xs)"
  by (induction xs) auto

lemma groups_partition:
  assumes "distinct gs"
  shows "mset (concat (map (\<lambda>g. map W (sortBySort (filter (\<lambda>r. groupKey r = g) d))) gs))
     = image_mset W (mset (filter (\<lambda>r. groupKey r \<in> set gs) d))"
  using assms
proof (induction gs)
  case Nil
  then show ?case by simp
next
  case (Cons g gs)
  have one: "mset (map W (sortBySort (filter (\<lambda>r. groupKey r = g) d)))
      = image_mset W (mset (filter (\<lambda>r. groupKey r = g) d))"
    by (simp add: sortBySort_def)
  have "mset (filter (\<lambda>r. groupKey r = g) d) + mset (filter (\<lambda>r. groupKey r \<in> set gs) d)
      = mset (filter (\<lambda>r. groupKey r = g \<or> groupKey r \<in> set gs) d)"
    using Cons.prems by (intro filter_disjoint_mset) auto
  then have "image_mset W (mset (filter (\<lambda>r. groupKey r = g) d))
        + image_mset W (mset (filter (\<lambda>r. groupKey r \<in> set gs) d))
      = image_mset W (mset (filter (\<lambda>r. groupKey r \<in> set (g # gs)) d))"
    by (simp only: image_mset_union [symmetric] set_simps insert_iff)
  then show ?case using Cons one by simp
qed

lemma recomputeGroupSizes_eq:
  assumes dist: "distinct (map sort' d)"
  shows "\<exists>gs. distinct gs \<and> set gs = groupKey ` set d \<and>
     recomputeGroupSizes d
       = concat (map (\<lambda>g. map (withGroupSize d) (sortBySort (filter (\<lambda>r. groupKey r = g) d))) gs)"
proof -
  obtain gs where gs: "distinct gs" "set gs = groupKey ` set d"
    and bg: "buildGroups d = map (\<lambda>g. (g, sortBySort (filter (\<lambda>r. groupKey r = g) d))) gs"
    using buildGroups_eq [of d] by blast
  have "recomputeGroupSizes d
      = concat (map (\<lambda>g. (let rows = sortBySort (filter (\<lambda>r. groupKey r = g) d); size = length rows
          in map (\<lambda>(idx, r). r\<lparr>groupSize := Some (if idx = 0 then size else 0)\<rparr>) (enumerate 0 rows))) gs)"
    unfolding recomputeGroupSizes_def bg by (simp add: Let_def comp_def)
  also have "\<dots> = concat (map (\<lambda>g. map (withGroupSize d) (sortBySort (filter (\<lambda>r. groupKey r = g) d))) gs)"
    using sized_group [OF dist] gs(2) by (intro arg_cong [where f = concat] map_cong) auto
  finally show ?thesis using gs by blast
qed

lemma recomputeGroupSizes_mset:
  assumes dist: "distinct (map sort' d)"
  shows "mset (recomputeGroupSizes d) = mset (map (withGroupSize d) d)"
proof -
  obtain gs where gs: "distinct gs" "set gs = groupKey ` set d"
    and eq: "recomputeGroupSizes d
       = concat (map (\<lambda>g. map (withGroupSize d) (sortBySort (filter (\<lambda>r. groupKey r = g) d))) gs)"
    using recomputeGroupSizes_eq [OF dist] by blast
  have "filter (\<lambda>r. groupKey r \<in> set gs) d = d" using gs(2) by (auto simp: filter_id_conv)
  then show ?thesis unfolding eq groups_partition [OF gs(1)] by simp
qed

lemma one_header:
  assumes dist: "distinct (map sort' d)" and r: "r \<in> set d"
  shows "length (filter (\<lambda>x. groupKey x = groupKey r \<and> isHeader d x) d) = 1"
proof -
  let ?g = "groupKey r"
  let ?h = "hd (sortBySort (filter (\<lambda>r. groupKey r = ?g) d))"
  have ne: "filter (\<lambda>x. groupKey x = ?g) d \<noteq> []" using r by (auto simp: filter_empty_conv)
  have h: "?h \<in> set d" "groupKey ?h = ?g" using sortBySort_hd_in [OF ne] by auto
  have dd: "distinct d" using dist by (rule distinct_map [THEN iffD1, THEN conjunct1])
  have "set (filter (\<lambda>x. groupKey x = ?g \<and> isHeader d x) d) = {?h}"
    using header_is_first [OF dist, of _ ?g] h by auto
  moreover have "distinct (filter (\<lambda>x. groupKey x = ?g \<and> isHeader d x) d)" using dd by simp
  ultimately show ?thesis using distinct_card by fastforce
qed

text \<open>
  Claim C8. For a collection with distinct order keys, \<open>recomputeGroupSizes\<close> returns the
  rows of its input (as a multiset: the rows come out group by group) with only the
  \<open>groupSize\<close> rewritten: the row with the smallest order key of its group carries the
  number of members of the group, every other row carries 0. So for every group of the
  collection the number of members is not 0, exactly one returned member carries it, and
  every returned member carries it or 0.
\<close>

theorem recomputeGroupSizes_one_header_per_group:
  assumes dist: "distinct (map sort' d)"
  shows "mset (recomputeGroupSizes d) = mset (map (withGroupSize d) d) \<and>
    (\<forall>r\<in>set d. 0 < groupCard d (groupKey r) \<and>
       length (filter (\<lambda>x. groupKey x = groupKey r \<and> groupSize x = Some (groupCard d (groupKey r)))
         (recomputeGroupSizes d)) = 1 \<and>
       (\<forall>x\<in>set (recomputeGroupSizes d). groupKey x = groupKey r \<longrightarrow>
          groupSize x = Some (groupCard d (groupKey r)) \<or> groupSize x = Some 0))"
proof (intro conjI ballI impI)
  show ms: "mset (recomputeGroupSizes d) = mset (map (withGroupSize d) d)"
    using dist by (rule recomputeGroupSizes_mset)
  fix r assume r: "r \<in> set d"
  let ?g = "groupKey r"
  let ?P = "\<lambda>x. groupKey x = ?g \<and> groupSize x = Some (groupCard d ?g)"
  show pos: "0 < groupCard d ?g"
    using r by (auto simp: groupCard_def filter_empty_conv)
  have "length (filter ?P (recomputeGroupSizes d)) = size (filter_mset ?P (mset (recomputeGroupSizes d)))"
    by (simp only: mset_filter [symmetric] size_mset)
  also have "\<dots> = length (filter ?P (map (withGroupSize d) d))"
    unfolding ms by (simp only: mset_filter [symmetric] size_mset)
  also have "\<dots> = length (filter (\<lambda>x. ?P (withGroupSize d x)) d)"
    by (simp add: filter_map comp_def)
  also have "\<dots> = length (filter (\<lambda>x. groupKey x = ?g \<and> isHeader d x) d)"
  proof -
    have "?P (withGroupSize d x) \<longleftrightarrow> groupKey x = ?g \<and> isHeader d x" for x
      using pos by (auto simp: withGroupSize_def)
    then show ?thesis by (simp only:)
  qed
  also have "\<dots> = 1" using dist r by (rule one_header)
  finally show "length (filter ?P (recomputeGroupSizes d)) = 1" .
  fix x assume x: "x \<in> set (recomputeGroupSizes d)" "groupKey x = ?g"
  have "x \<in># mset (map (withGroupSize d) d)" using x(1) ms by (metis set_mset_mset)
  then obtain r0 where "r0 \<in> set d" "x = withGroupSize d r0" by auto
  then show "groupSize x = Some (groupCard d ?g) \<or> groupSize x = Some 0"
    using x(2) by (auto simp: withGroupSize_def)
qed

theorem recomputeGroupSizes_one_header_per_group_witness:
  "distinct (map sort' unsortedData) \<and>
   recomputeGroupSizes unsortedData
     = [(unsortedData ! 1)\<lparr>groupSize := Some 2\<rparr>, (unsortedData ! 0)\<lparr>groupSize := Some 0\<rparr>,
        (unsortedData ! 2)\<lparr>groupSize := Some 1\<rparr>] \<and>
   mset (recomputeGroupSizes unsortedData) = mset (map (withGroupSize unsortedData) unsortedData) \<and>
   unsortedData ! 0 \<in> set unsortedData \<and>
   groupCard unsortedData (groupKey (unsortedData ! 0)) = 2 \<and>
   length (filter (\<lambda>x. groupKey x = groupKey (unsortedData ! 0)
        \<and> groupSize x = Some (groupCard unsortedData (groupKey (unsortedData ! 0))))
      (recomputeGroupSizes unsortedData)) = 1"
proof -
  have d: "distinct (map sort' unsortedData)" by (simp add: unsortedData_def)
  have m: "unsortedData ! 0 \<in> set unsortedData" by (simp add: unsortedData_def)
  have c: "groupCard unsortedData (groupKey (unsortedData ! 0)) = 2"
    by (simp add: unsortedData_def groupCard_def)
  have e: "recomputeGroupSizes unsortedData
     = [(unsortedData ! 1)\<lparr>groupSize := Some 2\<rparr>, (unsortedData ! 0)\<lparr>groupSize := Some 0\<rparr>,
        (unsortedData ! 2)\<lparr>groupSize := Some 1\<rparr>]"
    by (simp add: recomputeGroupSizes_def buildGroups_def groupPush_def sortBySort_def
        unsortedData_def Let_def enumerate_simps)
  from recomputeGroupSizes_one_header_per_group [OF d] m
  have "mset (recomputeGroupSizes unsortedData) = mset (map (withGroupSize unsortedData) unsortedData)"
    and "length (filter (\<lambda>x. groupKey x = groupKey (unsortedData ! 0)
        \<and> groupSize x = Some (groupCard unsortedData (groupKey (unsortedData ! 0))))
      (recomputeGroupSizes unsortedData)) = 1"
    by blast+
  then show ?thesis using d m c e by blast
qed

end
